theory Spec2Isabelle
  imports Complex_Main "HOL-Library.Char_ord" "HOL-Library.List_Lexorder" "HOL-Library.Multiset"
begin

section \<open>JavaScript strings\<close>

text \<open>
  Concept texts, session codes and session ids are JavaScript strings, sequences of code
  units. A \<^typ>\<open>char\<close> is a code unit below 256 (Basic Latin and Latin-1 Supplement), and
  \<open>a < b\<close> is the lexicographic order on code units (\<open>List_Lexorder\<close> over
  \<open>Char_ord\<close>). Among these code units \<open>String.prototype.trim\<close> strips the white
  space and line terminators TAB, LF, VT, FF, CR, SPACE and NO-BREAK SPACE (U+00A0) from
  both ends, and \<open>String.prototype.toLowerCase\<close> maps \<open>A..Z\<close> and the capital letters
  U+00C0 .. U+00DE (all of that range but the multiplication sign U+00D7) to the code
  unit 32 above; every other code unit below 256 is its own lower case. A string is
  falsy exactly when it is empty.
\<close>

definition isWhiteSpace :: "char \<Rightarrow> bool" where
  "isWhiteSpace c =
     (c \<in> set [CHR 0x09, CHR 0x0A, CHR 0x0B, CHR 0x0C, CHR 0x0D, CHR '' '', CHR 0xA0])"

definition trim :: "string \<Rightarrow> string" where
  "trim s = rev (dropWhile isWhiteSpace (rev (dropWhile isWhiteSpace s)))"

definition lowerChar :: "char \<Rightarrow> char" where
  "lowerChar c =
     (if (CHR ''A'' \<le> c \<and> c \<le> CHR ''Z'')
         \<or> (CHR 0xC0 \<le> c \<and> c \<le> CHR 0xDE \<and> c \<noteq> CHR 0xD7)
      then char_of (of_char c + (32::nat)) else c)"

definition toLowerCase :: "string \<Rightarrow> string" where
  "toLowerCase s = map lowerChar s"

section \<open>Canonicalizer: \<open>buildEdgeKey\<close> (server.js)\<close>

definition buildEdgeKey :: "string \<Rightarrow> string \<Rightarrow> string" where
  "buildEdgeKey conceptA conceptB =
     (let a = toLowerCase (trim conceptA);
          b = toLowerCase (trim conceptB)
      in if a < b then a @ ''::'' @ b else b @ ''::'' @ a)"

section \<open>Storage: the SQLite tables and prepared statements (server.js)\<close>

text \<open>
  The three tables, each a list of rows in rowid order. \<open>created_at\<close> of a session (the
  wall clock) and the autoincrement ids are left out: no statement below reads them.
  \<open>weight\<close> is SQLite's 64-bit INTEGER; it counts sessions and stays far below
  \<open>2^63\<close>, so it is a \<^typ>\<open>nat\<close>.
\<close>

record session_row =
  code :: string
  name :: "string option"

record edge_row =
  session_code :: string
  concept_a :: string
  concept_b :: string
  edge_key :: string
  weight :: nat

record session_edge_row =
  se_session_id :: string
  se_session_code :: string
  se_edge_key :: string

record db =
  sessions_table :: "session_row list"
  edges_table :: "edge_row list"
  session_edges_table :: "session_edge_row list"

text \<open>
  A statement that throws: a UNIQUE constraint violation, or a failure of the storage
  itself (disk full, I/O error, busy database).
\<close>

datatype sqlite_error = ConstraintUnique | StorageFailure

text \<open>\<open>getSessionStmt\<close>: SELECT ... FROM sessions WHERE code = ?\<close>

definition getSessionStmt :: "db \<Rightarrow> string \<Rightarrow> session_row option" where
  "getSessionStmt st c = find (\<lambda>s. code s = c) (sessions_table st)"

text \<open>\<open>hasSessionEdge\<close>: SELECT 1 FROM session_edges WHERE session_id = ? AND
  session_code = ? AND edge_key = ? LIMIT 1\<close>

definition hasSessionEdge :: "db \<Rightarrow> string \<Rightarrow> string \<Rightarrow> string \<Rightarrow> bool" where
  "hasSessionEdge st sid sc k =
     (find (\<lambda>r. se_session_id r = sid \<and> se_session_code r = sc \<and> se_edge_key r = k)
        (session_edges_table st) \<noteq> None)"

text \<open>\<open>recordSessionEdge\<close>: INSERT INTO session_edges, under
  UNIQUE(session_id, session_code, edge_key). The flag says whether the storage fails.\<close>

definition recordSessionEdge ::
  "bool \<Rightarrow> db \<Rightarrow> string \<Rightarrow> string \<Rightarrow> string \<Rightarrow> sqlite_error + db" where
  "recordSessionEdge storage_fails st sid sc k =
     (if storage_fails then Inl StorageFailure
      else if hasSessionEdge st sid sc k then Inl ConstraintUnique
      else Inr (st\<lparr>session_edges_table := session_edges_table st @
                  [\<lparr>se_session_id = sid, se_session_code = sc, se_edge_key = k\<rparr>]\<rparr>))"

text \<open>\<open>upsertEdge\<close>: INSERT ... VALUES (..., 1) ON CONFLICT(session_code, edge_key)
  DO UPDATE SET weight = weight + 1\<close>

fun upsert_rows :: "string \<Rightarrow> string \<Rightarrow> string \<Rightarrow> string \<Rightarrow> edge_row list \<Rightarrow> edge_row list" where
  "upsert_rows sc a b k [] =
     [\<lparr>session_code = sc, concept_a = a, concept_b = b, edge_key = k, weight = 1\<rparr>]"
| "upsert_rows sc a b k (r # rs) =
     (if session_code r = sc \<and> edge_key r = k then r\<lparr>weight := weight r + 1\<rparr> # rs
      else r # upsert_rows sc a b k rs)"

definition upsertEdge ::
  "bool \<Rightarrow> db \<Rightarrow> string \<Rightarrow> string \<Rightarrow> string \<Rightarrow> string \<Rightarrow> sqlite_error + db" where
  "upsertEdge storage_fails st sc a b k =
     (if storage_fails then Inl StorageFailure
      else Inr (st\<lparr>edges_table := upsert_rows sc a b k (edges_table st)\<rparr>))"

text \<open>
  \<open>listEdges\<close>: SELECT concept_a, concept_b, weight FROM edges WHERE session_code = ?
  ORDER BY weight DESC, concept_a ASC. The ORDER BY does not separate two rows of equal
  weight and equal \<open>concept_a\<close>, and SQL leaves their order to the engine. SQLite finds
  the rows of a scope through the index of UNIQUE(session_code, edge_key), which yields
  them in \<open>edge_key\<close> order (\<open>index_scan\<close>), and its sorter keeps the rows that the
  ORDER BY does not separate in the order they were read (\<open>insert_row\<close> puts a row in
  front of the first row that does not come before it). TEXT is compared byte by byte in
  UTF-8, which is the order of the code units below 256.
\<close>

definition index_scan :: "db \<Rightarrow> string \<Rightarrow> edge_row list" where
  "index_scan st sc = sort_key edge_key (filter (\<lambda>r. session_code r = sc) (edges_table st))"

definition order_by :: "edge_row \<Rightarrow> edge_row \<Rightarrow> bool" where
  "order_by r1 r2 =
     (weight r2 < weight r1 \<or> (weight r1 = weight r2 \<and> concept_a r1 \<le> concept_a r2))"

fun insert_row :: "edge_row \<Rightarrow> edge_row list \<Rightarrow> edge_row list" where
  "insert_row r [] = [r]"
| "insert_row r (x # xs) = (if order_by r x then r # x # xs else x # insert_row r xs)"

definition listEdges :: "db \<Rightarrow> string \<Rightarrow> edge_row list" where
  "listEdges st sc = foldr insert_row (index_scan st sc) []"

section \<open>Snapshots: \<open>getGraph\<close> (server.js)\<close>

record node =
  node_id :: string
  node_label :: string

record edge =
  edge_from :: string
  edge_to :: string
  edge_weight :: nat

record snapshot =
  nodes :: "node list"
  edges :: "edge list"

text \<open>\<open>nodesMap\<close> is a JavaScript Map: it keeps its keys in insertion order.\<close>

definition nodesMap_add :: "node list \<Rightarrow> string \<Rightarrow> node list" where
  "nodesMap_add m a =
     (if a \<in> set (map node_id m) then m else m @ [\<lparr>node_id = a, node_label = a\<rparr>])"

definition getGraph :: "db \<Rightarrow> string \<Rightarrow> snapshot" where
  "getGraph st sessionCode =
     (let rows = listEdges st sessionCode;
          nodesMap = foldl (\<lambda>m r. nodesMap_add (nodesMap_add m (trim (concept_a r)))
                                     (trim (concept_b r))) [] rows
      in \<lparr>nodes = nodesMap,
          edges = map (\<lambda>r. \<lparr>edge_from = trim (concept_a r), edge_to = trim (concept_b r),
                             edge_weight = weight r\<rparr>) rows\<rparr>)"

section \<open>Aggregator: POST /api/session/:code/submit (server.js)\<close>

definition validateSessionCode :: "string \<Rightarrow> string option" where
  "validateSessionCode c =
     (if c = [] then None
      else let normalized = toLowerCase (trim c)
           in if normalized = [] \<or> length normalized > 64 then None else Some normalized)"

text \<open>
  A request: the route parameter, the session id of the cookie middleware, and the two
  fields of the JSON body (\<open>None\<close> when the field is missing). The response is the
  status with its JSON body; a statement that throws ends the handler in Express's
  error handler (status 500). The handler also pushes the new snapshot to the scope's
  socket room; the push changes no table and is not part of the model. The \<open>ok\<close>
  body carries, beside the snapshot, the driver's run information of the upsert under
  \<open>edge\<close>; it is left out as well.
\<close>

record request =
  req_code :: string
  req_sessionId :: string
  req_source :: "string option"
  req_target :: "string option"

datatype response =
  JsonError nat string
  | StatusDuplicate snapshot
  | StatusOk snapshot
  | InternalServerError sqlite_error

datatype fault = NoFault | RecordFails | UpsertFails

definition submit_handler :: "fault \<Rightarrow> db \<Rightarrow> request \<Rightarrow> response \<times> db" where
  "submit_handler f st req =
     (case validateSessionCode (req_code req) of
        None \<Rightarrow> (JsonError 400 ''Invalid session code.'', st)
      | Some sessionCode \<Rightarrow>
     (case getSessionStmt st sessionCode of
        None \<Rightarrow> (JsonError 404 ''Session not found.'', st)
      | Some session \<Rightarrow>
     (case (req_source req, req_target req) of
        (None, _) \<Rightarrow> (JsonError 400 ''Both source and target concepts are required.'', st)
      | (_, None) \<Rightarrow> (JsonError 400 ''Both source and target concepts are required.'', st)
      | (Some source, Some target) \<Rightarrow>
          if source = [] \<or> target = []
          then (JsonError 400 ''Both source and target concepts are required.'', st)
          else
            let normalizedSource = toLowerCase (trim source);
                normalizedTarget = toLowerCase (trim target)
            in if normalizedSource = [] \<or> normalizedTarget = []
                  \<or> normalizedSource = normalizedTarget
               then (JsonError 400 ''Concepts must be non-empty and distinct.'', st)
               else
                 let edgeKey = buildEdgeKey normalizedSource normalizedTarget
                 in if hasSessionEdge st (req_sessionId req) sessionCode edgeKey
                    then (StatusDuplicate (getGraph st sessionCode), st)
                    else
                      (case recordSessionEdge (f = RecordFails) st (req_sessionId req)
                              sessionCode edgeKey of
                         Inl e \<Rightarrow> (InternalServerError e, st)
                       | Inr st1 \<Rightarrow>
                      (case upsertEdge (f = UpsertFails) st1 sessionCode normalizedSource
                              normalizedTarget edgeKey of
                         Inl e \<Rightarrow> (InternalServerError e, st1)
                       | Inr st2 \<Rightarrow> (StatusOk (getGraph st2 sessionCode), st2))))))"

text \<open>The handler when the storage works.\<close>

definition submit :: "db \<Rightarrow> request \<Rightarrow> response \<times> db" where
  "submit st req = submit_handler NoFault st req"

text \<open>Requests served one after the other: Node runs each synchronous handler to its end.\<close>

fun serve :: "db \<Rightarrow> request list \<Rightarrow> db" where
  "serve st [] = st"
| "serve st (req # reqs) = serve (snd (submit st req)) reqs"

section \<open>Vocabulary of the properties (server side)\<close>

text \<open>
  The definitions of this section are not code of the repository: they name what the
  theorems about the handler talk about.
\<close>

text \<open>A pair the handler rejects: a concept that is empty once trimmed and lower-cased,
  or two concepts that normalize to the same text.\<close>

definition invalid_pair :: "string \<Rightarrow> string \<Rightarrow> bool" where
  "invalid_pair a b =
     (toLowerCase (trim a) = [] \<or> toLowerCase (trim b) = []
      \<or> toLowerCase (trim a) = toLowerCase (trim b))"

text \<open>The scope and the edge key of a request that passes the handler's validation.\<close>

definition request_key :: "request \<Rightarrow> (string \<times> string) option" where
  "request_key req =
     (case (validateSessionCode (req_code req), req_source req, req_target req) of
        (Some sc, Some a, Some b) \<Rightarrow>
          if invalid_pair a b then None
          else Some (sc, buildEdgeKey (toLowerCase (trim a)) (toLowerCase (trim b)))
      | _ \<Rightarrow> None)"

text \<open>The weights of the stored rows of one edge key in one scope (at most one row,
  under the UNIQUE constraint), and the sessions that have recorded the key there.\<close>

definition stored_weights :: "db \<Rightarrow> string \<Rightarrow> string \<Rightarrow> nat list" where
  "stored_weights st sc k =
     map weight (filter (\<lambda>r. session_code r = sc \<and> edge_key r = k) (edges_table st))"

definition recorded_sessions :: "db \<Rightarrow> string \<Rightarrow> string \<Rightarrow> string set" where
  "recorded_sessions st sc k =
     se_session_id ` {r \<in> set (session_edges_table st). se_session_code r = sc \<and> se_edge_key r = k}"

text \<open>The stored weight counts the sessions that recorded the key.\<close>

definition counted :: "db \<Rightarrow> string \<Rightarrow> string \<Rightarrow> bool" where
  "counted st sc k =
     (stored_weights st sc k =
        (if recorded_sessions st sc k = {} then [] else [card (recorded_sessions st sc k)]))"

text \<open>The responses of a run of requests, and the response of a recorded submission.\<close>

fun responses :: "db \<Rightarrow> request list \<Rightarrow> response list" where
  "responses st [] = []"
| "responses st (req # reqs) = fst (submit st req) # responses (snd (submit st req)) reqs"

definition is_ok :: "response \<Rightarrow> bool" where
  "is_ok r = (case r of StatusOk g \<Rightarrow> True | _ \<Rightarrow> False)"

text \<open>The distinct elements of a list, in the order of their first appearance; the
  end points of a list of rows, row by row.\<close>

fun first_appearance :: "'a list \<Rightarrow> 'a list" where
  "first_appearance [] = []"
| "first_appearance (x # xs) = x # first_appearance (filter (\<lambda>y. y \<noteq> x) xs)"

definition row_endpoints :: "edge_row list \<Rightarrow> string list" where
  "row_endpoints rows = concat (map (\<lambda>r. [trim (concept_a r), trim (concept_b r)]) rows)"

text \<open>The order in which \<open>listEdges\<close> returns the rows of a scope: weight descending,
  then the stored first concept ascending, then the edge key ascending.\<close>

definition tie_order :: "edge_row \<Rightarrow> edge_row \<Rightarrow> bool" where
  "tie_order r1 r2 =
     (weight r2 < weight r1
      \<or> (weight r1 = weight r2
          \<and> (concept_a r1 < concept_a r2
              \<or> (concept_a r1 = concept_a r2 \<and> edge_key r1 \<le> edge_key r2))))"

section \<open>Example data\<close>

text \<open>A database with one session and no edges, and submissions to it.\<close>

definition example_db :: db where
  "example_db =
     \<lparr>sessions_table = [\<lparr>code = ''room'', name = None\<rparr>],
      edges_table = [], session_edges_table = []\<rparr>"

definition example_request :: "string \<Rightarrow> string \<Rightarrow> string \<Rightarrow> request" where
  "example_request sid a b =
     \<lparr>req_code = ''Room'', req_sessionId = sid, req_source = Some a, req_target = Some b\<rparr>"

definition example_run :: "request list" where
  "example_run =
     [example_request ''s1'' ''Trust'' ''Cooperation'',
      example_request ''s2'' ''b'' ''a'',
      example_request ''s2'' '' cooperation'' ''TRUST'',
      example_request ''s1'' ''a'' ''A '']"

text \<open>
  Submissions that leave four rows: in rowid order (b, c), (z, b), (z, a) of weight 1 and
  (y, x) of weight 2. The last row has the greatest weight, and the two rows with first
  concept z tie on weight and first concept; their keys are b::z and a::z.
\<close>

definition order_run :: "request list" where
  "order_run =
     [example_request ''s1'' ''b'' ''c'',
      example_request ''s1'' ''z'' ''b'',
      example_request ''s1'' ''z'' ''a'',
      example_request ''s1'' ''y'' ''x'',
      example_request ''s2'' ''X'' ''Y'']"

text \<open>Two of the submissions of \<open>example_run\<close> the other way round: the row of weight 1
  is stored first.\<close>

definition swapped_run :: "request list" where
  "swapped_run =
     [example_request ''s2'' ''b'' ''a'',
      example_request ''s1'' ''Trust'' ''Cooperation'',
      example_request ''s2'' '' cooperation'' ''TRUST'']"

section \<open>JavaScript Maps and Sets\<close>

text \<open>
  A JavaScript \<open>Map\<close> iterates in insertion order, and \<open>set\<close> on a key it already
  holds replaces the value where the key stands. It is modelled as an association list
  with distinct keys: \<open>map_has\<close>, \<open>map_of\<close> (for \<open>get\<close>) and \<open>map_set\<close>. A
  \<open>Set\<close> is a list without repetitions, in insertion order.
\<close>

definition map_has :: "'k \<Rightarrow> ('k \<times> 'v) list \<Rightarrow> bool" where
  "map_has k m = (map_of m k \<noteq> None)"

fun map_set :: "'k \<Rightarrow> 'v \<Rightarrow> ('k \<times> 'v) list \<Rightarrow> ('k \<times> 'v) list" where
  "map_set k v [] = [(k, v)]"
| "map_set k v (p # m) = (if fst p = k then (k, v) # m else p # map_set k v m)"

definition set_add :: "'a \<Rightarrow> 'a list \<Rightarrow> 'a list" where
  "set_add x s = (if x \<in> set s then s else s @ [x])"

section \<open>Analytics: \<open>buildMetrics\<close> (public/app.js)\<close>

record metrics =
  degrees :: "(string \<times> nat) list"
  adjacency :: "(string \<times> string list) list"
  hubId :: "string option"
  distances :: "(string \<times> nat) list"

text \<open>\<open>graph.nodes.forEach\<close>: every node starts with degree 0 and no neighbour.\<close>

definition init_node ::
  "(string \<times> nat) list \<times> (string \<times> string list) list \<Rightarrow> node \<Rightarrow>
   (string \<times> nat) list \<times> (string \<times> string list) list" where
  "init_node da n = (map_set (node_id n) 0 (fst da), map_set (node_id n) [] (snd da))"

text \<open>\<open>if (!m.has(k)) m.set(k, v)\<close>\<close>

definition ensure :: "'k \<Rightarrow> 'v \<Rightarrow> ('k \<times> 'v) list \<Rightarrow> ('k \<times> 'v) list" where
  "ensure k v m = (if map_has k m then m else map_set k v m)"

text \<open>
  \<open>degrees.set(k, degrees.get(k) + 1)\<close> and \<open>adjacency.get(a).add(b)\<close>. Both run
  right after \<open>ensure\<close> has put the key in, so the branch for a missing key is
  never taken (lemmas \<open>map_has_ensure\<close>, \<open>bump_present\<close> and
  \<open>adj_add_present\<close>).
\<close>

definition bump :: "string \<Rightarrow> (string \<times> nat) list \<Rightarrow> (string \<times> nat) list" where
  "bump k deg = (case map_of deg k of Some d \<Rightarrow> map_set k (d + 1) deg | None \<Rightarrow> deg)"

definition adj_add ::
  "string \<Rightarrow> string \<Rightarrow> (string \<times> string list) list \<Rightarrow> (string \<times> string list) list" where
  "adj_add a b adj = (case map_of adj a of Some s \<Rightarrow> map_set a (set_add b s) adj | None \<Rightarrow> adj)"

text \<open>\<open>graph.edges.forEach\<close>\<close>

definition add_edge ::
  "(string \<times> nat) list \<times> (string \<times> string list) list \<Rightarrow> edge \<Rightarrow>
   (string \<times> nat) list \<times> (string \<times> string list) list" where
  "add_edge da e =
     (let from_id = edge_from e; to_id = edge_to e;
          deg = bump to_id (bump from_id (ensure to_id 0 (ensure from_id 0 (fst da))));
          adj = adj_add to_id from_id (adj_add from_id to_id
                  (ensure to_id [] (ensure from_id [] (snd da))))
      in (deg, adj))"

text \<open>
  The hub: \<open>degrees.forEach\<close> keeps the first key, in the Map's order, whose degree is
  greater than every degree before it. \<open>hubDegree\<close> starts at \<open>-1\<close>.
\<close>

definition hub_step :: "string option \<times> int \<Rightarrow> string \<times> nat \<Rightarrow> string option \<times> int" where
  "hub_step h kv = (if int (snd kv) > snd h then (Some (fst kv), int (snd kv)) else h)"

definition pick_hub :: "(string \<times> nat) list \<Rightarrow> string option \<times> int" where
  "pick_hub deg = foldl hub_step (None, - 1) deg"

text \<open>
  Breadth-first search from the hub. \<open>visit\<close> is the body of \<open>neighbours.forEach\<close>;
  \<open>distances.get(current)\<close> is there whenever \<open>current\<close> came off the queue (lemma
  \<open>visit_current_present\<close>), so the branch for a missing distance is never taken.
\<close>

definition neighbours :: "(string \<times> string list) list \<Rightarrow> string \<Rightarrow> string list" where
  "neighbours adj current = (case map_of adj current of Some s \<Rightarrow> s | None \<Rightarrow> [])"

definition visit ::
  "string \<Rightarrow> string list \<times> (string \<times> nat) list \<Rightarrow> string \<Rightarrow>
   string list \<times> (string \<times> nat) list" where
  "visit current qd next_id =
     (if map_has next_id (snd qd) then qd
      else (case map_of (snd qd) current of
              Some dc \<Rightarrow> (fst qd @ [next_id], map_set next_id (dc + 1) (snd qd))
            | None \<Rightarrow> qd))"

definition all_neighbours :: "(string \<times> string list) list \<Rightarrow> string set" where
  "all_neighbours adj = (\<Union>s \<in> snd ` set adj. set s)"

definition bfs_measure ::
  "(string \<times> string list) list \<times> string list \<times> (string \<times> nat) list \<Rightarrow> nat" where
  "bfs_measure a =
     (case a of (adj, queue, ds) \<Rightarrow>
        2 * card (all_neighbours adj - fst ` set ds) + length queue)"

lemma keys_map_set: "fst ` set (map_set k v m) = insert k (fst ` set m)"
  by (induction m) auto

lemma map_has_keys: "map_has k m \<longleftrightarrow> k \<in> fst ` set m"
  by (simp add: map_has_def map_of_eq_None_iff)

lemma finite_all_neighbours: "finite (all_neighbours adj)"
  by (simp add: all_neighbours_def)

lemma neighbours_subset: "set (neighbours adj c) \<subseteq> all_neighbours adj"
proof (cases "map_of adj c")
  case None
  then show ?thesis by (simp add: neighbours_def)
next
  case (Some s)
  then have "(c, s) \<in> set adj" by (rule map_of_SomeD)
  then have "s \<in> snd ` set adj" by force
  then show ?thesis using Some by (auto simp: neighbours_def all_neighbours_def)
qed

lemma visit_measure:
  assumes "n \<in> all_neighbours adj"
  shows "bfs_measure (adj, visit c (q, d) n) \<le> bfs_measure (adj, q, d)"
proof (cases "map_has n d \<or> map_of d c = None")
  case True
  then show ?thesis by (auto simp: visit_def)
next
  case False
  then obtain dc where dc: "map_of d c = Some dc" and n: "n \<notin> fst ` set d"
    by (auto simp: map_has_keys)
  have v: "visit c (q, d) n = (q @ [n], map_set n (dc + 1) d)"
    using False dc by (simp add: visit_def)
  have "all_neighbours adj - insert n (fst ` set d) = (all_neighbours adj - fst ` set d) - {n}"
    by auto
  moreover have "n \<in> all_neighbours adj - fst ` set d" using assms n by simp
  ultimately have "card (all_neighbours adj - insert n (fst ` set d)) =
      card (all_neighbours adj - fst ` set d) - 1" and "card (all_neighbours adj - fst ` set d) > 0"
    using finite_all_neighbours [of adj] by (auto simp: card_gt_0_iff)
  then show ?thesis
    unfolding v by (simp add: bfs_measure_def keys_map_set)
qed

lemma foldl_visit_measure:
  "set ns \<subseteq> all_neighbours adj \<Longrightarrow>
   bfs_measure (adj, foldl (visit c) qd ns) \<le> bfs_measure (adj, qd)"
proof (induction ns arbitrary: qd)
  case Nil
  then show ?case by simp
next
  case (Cons n ns)
  have "bfs_measure (adj, foldl (visit c) (visit c qd n) ns) \<le> bfs_measure (adj, visit c qd n)"
    using Cons by simp
  also have "\<dots> \<le> bfs_measure (adj, qd)"
    using visit_measure [of n adj c "fst qd" "snd qd"] Cons.prems by simp
  finally show ?case by simp
qed

function bfs_loop ::
  "(string \<times> string list) list \<Rightarrow> string list \<Rightarrow> (string \<times> nat) list \<Rightarrow>
   (string \<times> nat) list" where
  "bfs_loop adj [] ds = ds"
| "bfs_loop adj (current # rest) ds =
     bfs_loop adj (fst (foldl (visit current) (rest, ds) (neighbours adj current)))
                  (snd (foldl (visit current) (rest, ds) (neighbours adj current)))"
  by pat_completeness auto
termination
proof (relation "measure bfs_measure")
  show "wf (measure bfs_measure)" by simp
next
  fix adj :: "(string \<times> string list) list" and current rest ds
  have "bfs_measure (adj, foldl (visit current) (rest, ds) (neighbours adj current))
          \<le> bfs_measure (adj, rest, ds)"
    by (rule foldl_visit_measure [OF neighbours_subset])
  also have "\<dots> < bfs_measure (adj, current # rest, ds)"
    by (simp add: bfs_measure_def)
  finally show "((adj, fst (foldl (visit current) (rest, ds) (neighbours adj current)),
                  snd (foldl (visit current) (rest, ds) (neighbours adj current))),
                 adj, current # rest, ds) \<in> measure bfs_measure"
    by simp
qed

definition buildMetrics :: "snapshot \<Rightarrow> metrics" where
  "buildMetrics graph =
     (let da = foldl add_edge (foldl init_node ([], []) (nodes graph)) (edges graph);
          hub = fst (pick_hub (fst da));
          ds = (case hub of
                    None \<Rightarrow> []
                  | Some h \<Rightarrow> bfs_loop (snd da) [h] (map_set h 0 []))
      in \<lparr>degrees = fst da, adjacency = snd da, hubId = hub, distances = ds\<rparr>)"

text \<open>
  The level the layouts read: \<open>distances.has(id) ? distances.get(id) :
  Number.MAX_SAFE_INTEGER\<close> (\<open>computeFocusedLayout\<close>).
\<close>

definition MAX_SAFE_INTEGER :: nat where
  "MAX_SAFE_INTEGER = 9007199254740991"

definition level_of :: "(string \<times> nat) list \<Rightarrow> string \<Rightarrow> nat" where
  "level_of ds i = (case map_of ds i of Some l \<Rightarrow> l | None \<Rightarrow> MAX_SAFE_INTEGER)"

section \<open>Vocabulary of the properties (analytics)\<close>

text \<open>A list of keys with one more key, as a Map's \<open>set\<close> leaves them; the end points
  of a list of edges, edge by edge.\<close>

definition keys_add :: "'a list \<Rightarrow> 'a \<Rightarrow> 'a list" where
  "keys_add ks k = (if k \<in> set ks then ks else ks @ [k])"

definition edge_endpoints :: "edge list \<Rightarrow> string list" where
  "edge_endpoints es = concat (map (\<lambda>e. [edge_from e, edge_to e]) es)"

text \<open>The snapshot the server returns after one session has submitted ("b", "a").\<close>

definition tie_graph :: snapshot where
  "tie_graph = getGraph (serve example_db [example_request ''s1'' ''b'' ''a'']) ''room''"

text \<open>
  The undirected graph of a snapshot: two ids are linked when some edge joins them, in
  either direction. A walk of \<open>n\<close> steps from \<open>u\<close>, and the shortest edge-count
  distance: the length of a walk that no walk undercuts.
\<close>

definition linked :: "snapshot \<Rightarrow> string \<Rightarrow> string \<Rightarrow> bool" where
  "linked g u v =
     (\<exists>e \<in> set (edges g). (edge_from e = u \<and> edge_to e = v) \<or> (edge_from e = v \<and> edge_to e = u))"

inductive walk :: "('a \<Rightarrow> 'a \<Rightarrow> bool) \<Rightarrow> 'a \<Rightarrow> nat \<Rightarrow> 'a \<Rightarrow> bool" for E u where
  walk_here: "walk E u 0 u"
| walk_step: "walk E u n v \<Longrightarrow> E v w \<Longrightarrow> walk E u (Suc n) w"

definition shortest :: "('a \<Rightarrow> 'a \<Rightarrow> bool) \<Rightarrow> 'a \<Rightarrow> 'a \<Rightarrow> nat \<Rightarrow> bool" where
  "shortest E u v n = (walk E u n v \<and> (\<forall>m. walk E u m v \<longrightarrow> n \<le> m))"

text \<open>
  The invariant of the breadth-first loop, over the queue and the distance Map: the hub
  has distance 0; every distance is the length of a walk from the hub; the queue holds
  visited ids in non-decreasing distance, and no distance exceeds the head's by more than
  one; every visited id that has left the queue has all its neighbours visited; distances
  across an edge differ by at most one; and every level below a distance is inhabited.
\<close>

definition edge_of :: "(string \<times> string list) list \<Rightarrow> string \<Rightarrow> string \<Rightarrow> bool" where
  "edge_of adj u v = (v \<in> set (neighbours adj u))"

definition queue_inv ::
  "(string \<Rightarrow> string \<Rightarrow> bool) \<Rightarrow> string \<Rightarrow> string list \<Rightarrow> (string \<rightharpoonup> nat) \<Rightarrow> bool" where
  "queue_inv E h q D \<longleftrightarrow>
     D h = Some 0
   \<and> (\<forall>v n. D v = Some n \<longrightarrow> walk E h n v)
   \<and> set q \<subseteq> dom D
   \<and> sorted_wrt (\<lambda>x y. \<forall>dx dy. D x = Some dx \<longrightarrow> D y = Some dy \<longrightarrow> dx \<le> dy) q
   \<and> (\<forall>c q' dc v n. q = c # q' \<longrightarrow> D c = Some dc \<longrightarrow> D v = Some n \<longrightarrow> n \<le> dc + 1)
   \<and> (\<forall>v w. v \<in> dom D \<longrightarrow> v \<notin> set q \<longrightarrow> E v w \<longrightarrow> w \<in> dom D)
   \<and> (\<forall>v w dv dw. D v = Some dv \<longrightarrow> D w = Some dw \<longrightarrow> E v w \<longrightarrow> dw \<le> dv + 1)
   \<and> (\<forall>v n. D v = Some (Suc n) \<longrightarrow> (\<exists>p. D p = Some n))"

definition bfs_inv ::
  "(string \<times> string list) list \<Rightarrow> string \<Rightarrow> string list \<Rightarrow> (string \<times> nat) list \<Rightarrow> bool" where
  "bfs_inv adj h q ds \<longleftrightarrow>
     distinct (map fst ds) \<and> queue_inv (edge_of adj) h q (map_of ds)"

text \<open>A hub with four neighbours, one second-level node, and a separate component.\<close>

definition example_edge :: "string \<Rightarrow> string \<Rightarrow> edge" where
  "example_edge a b = \<lparr>edge_from = a, edge_to = b, edge_weight = 1\<rparr>"

definition example_graph :: snapshot where
  "example_graph =
     \<lparr>nodes = map (\<lambda>i. \<lparr>node_id = i, node_label = i\<rparr>)
                [''h'', ''a'', ''b'', ''c'', ''d'', ''e'', ''x'', ''y''],
      edges = [example_edge ''h'' ''a'', example_edge ''h'' ''b'', example_edge ''c'' ''h'',
               example_edge ''d'' ''h'', example_edge ''x'' ''y'', example_edge ''a'' ''e'']\<rparr>"

section \<open>Layout engine (public/app.js)\<close>

text \<open>
  Positions are a Map from node id to \<open>{x, y}\<close>. Coordinates are JavaScript numbers;
  they are modelled as real numbers, \<open>Math.cos\<close>, \<open>Math.sin\<close> and \<open>Math.PI\<close> as
  \<open>cos\<close>, \<open>sin\<close> and \<open>pi\<close>, so rounding is not part of the model.
\<close>

type_synonym position = "real \<times> real"

text \<open>\<open>if (!m.has(level)) m.set(level, []); m.get(level).push(id)\<close>\<close>

definition push_level :: "(nat \<times> string list) list \<Rightarrow> nat \<Rightarrow> string \<Rightarrow> (nat \<times> string list) list" where
  "push_level m level i =
     (case map_of m level of
        Some ids \<Rightarrow> map_set level (ids @ [i]) m
      | None \<Rightarrow> map_set level [i] m)"

text \<open>\<open>ids.forEach((id, index) => positions.set(id, f(index, id)))\<close>\<close>

definition place_all ::
  "(nat \<Rightarrow> string \<Rightarrow> position) \<Rightarrow> string list \<Rightarrow> (string \<times> position) list \<Rightarrow>
   (string \<times> position) list" where
  "place_all f ids pos = foldl (\<lambda>p ji. map_set (snd ji) (f (fst ji) (snd ji)) p) pos (enumerate 0 ids)"

text \<open>\<open>positions.get(node.id) || { x: 0, y: 0 }\<close> (\<open>applyViewMode\<close>)\<close>

definition position_of :: "(string \<times> position) list \<Rightarrow> string \<Rightarrow> position" where
  "position_of pos i = (case map_of pos i of Some p \<Rightarrow> p | None \<Rightarrow> (0, 0))"

subsection \<open>Hierarchical layout: \<open>computeHierarchyLayout\<close> (public/app.js)\<close>

text \<open>
  The first pass gives every node with a distance its level and tracks the greatest; the
  second gives every other node a layer of its own, counting up from the greatest level
  plus one.
\<close>

definition assign_known ::
  "(string \<times> nat) list \<Rightarrow> (string \<times> nat) list \<times> nat \<Rightarrow> node \<Rightarrow> (string \<times> nat) list \<times> nat" where
  "assign_known ds s n =
     (case map_of ds (node_id n) of
        Some level \<Rightarrow> (map_set (node_id n) level (fst s), max (snd s) level)
      | None \<Rightarrow> s)"

definition assign_extra ::
  "(string \<times> nat) list \<times> nat \<Rightarrow> node \<Rightarrow> (string \<times> nat) list \<times> nat" where
  "assign_extra s n =
     (if map_has (node_id n) (fst s) then s
      else (map_set (node_id n) (snd s) (fst s), snd s + 1))"

definition levelAssignments :: "node list \<Rightarrow> (string \<times> nat) list \<Rightarrow> (string \<times> nat) list" where
  "levelAssignments ns ds =
     (let known = foldl (assign_known ds) ([], 0) ns;
          maxKnownLevel = snd known
      in fst (foldl assign_extra (fst known, maxKnownLevel + 1) ns))"

definition levelBuckets :: "(string \<times> nat) list \<Rightarrow> (nat \<times> string list) list" where
  "levelBuckets la = foldl (\<lambda>b il. push_level b (snd il) (fst il)) [] la"

text \<open>\<open>degrees.get(id) || 0\<close>\<close>

definition degree_or_0 :: "(string \<times> nat) list \<Rightarrow> string \<Rightarrow> nat" where
  "degree_or_0 deg i = (case map_of deg i of Some d \<Rightarrow> d | None \<Rightarrow> 0)"

text \<open>
  One layer: \<open>ids.sort\<close> by degree, descending (the sort is stable), then the nodes in
  a row centred on \<open>x = 0\<close>.
\<close>

definition place_layer ::
  "(string \<times> nat) list \<Rightarrow> nat \<Rightarrow> (string \<times> position) list \<Rightarrow> nat \<times> string list \<Rightarrow>
   (string \<times> position) list" where
  "place_layer deg n_levels pos entry =
     (let level = fst entry;
          ids = sort_key (\<lambda>i. - int (degree_or_0 deg i)) (snd entry);
          layerHeight = 160;
          nodeSpacing = 160;
          y = (real level - (real n_levels - 1) / 2) * layerHeight;
          half = (real (length ids) - 1) / 2
      in place_all (\<lambda>index i. ((real index - half) * nodeSpacing, y)) ids pos)"

definition computeHierarchyLayout :: "node list \<Rightarrow> metrics \<Rightarrow> (string \<times> position) list" where
  "computeHierarchyLayout ns m =
     (if ns = [] then []
      else
        let sortedLevels = sort_key fst (levelBuckets (levelAssignments ns (distances m)));
            positions = foldl (place_layer (degrees m) (length sortedLevels)) [] sortedLevels
        in (case hubId m of
              None \<Rightarrow> positions
            | Some h \<Rightarrow>
                if h \<noteq> [] then
                  (case map_of positions h of
                     Some p \<Rightarrow> map_set h (0, snd p) positions
                   | None \<Rightarrow> positions)
                else positions))"

subsection \<open>Focused layout: \<open>computeFocusedLayout\<close>\<close>

text \<open>
  The canvas: \<open>graphContainer.clientWidth || 640\<close> and \<open>clientHeight || 480\<close>, whole
  numbers of pixels.
\<close>

definition canvas_min :: "nat \<Rightarrow> nat \<Rightarrow> real" where
  "canvas_min clientWidth clientHeight =
     min (if clientWidth = 0 then 640 else real clientWidth)
         (if clientHeight = 0 then 480 else real clientHeight)"

definition levelMap :: "node list \<Rightarrow> (string \<times> nat) list \<Rightarrow> (nat \<times> string list) list" where
  "levelMap ns ds = foldl (\<lambda>lm n. push_level lm (level_of ds (node_id n)) (node_id n)) [] ns"

text \<open>
  The revision in public/app.js: the groups of level 0 and of the unreachable nodes are
  laid out on a diagonal from the origin, every other level on its ring.
\<close>

definition place_ring ::
  "real \<Rightarrow> real \<Rightarrow> (string \<times> position) list \<Rightarrow> nat \<times> string list \<Rightarrow> (string \<times> position) list" where
  "place_ring baseRadius radiusStep pos entry =
     (let level = fst entry; ids = snd entry
      in if level = 0 \<or> level = MAX_SAFE_INTEGER
         then place_all (\<lambda>index i. (real index * 40, real index * 40)) ids pos
         else
           let radius = baseRadius + radiusStep * (real level - 1);
               angleStep = (2 * pi) / real (length ids)
           in place_all (\<lambda>index i. (cos (angleStep * real index - pi / 2) * radius,
                                      sin (angleStep * real index - pi / 2) * radius)) ids pos)"

definition computeFocusedLayout ::
  "nat \<Rightarrow> nat \<Rightarrow> node list \<Rightarrow> metrics \<Rightarrow> (string \<times> position) list" where
  "computeFocusedLayout clientWidth clientHeight ns m =
     (if ns = [] then []
      else
        let baseRadius = canvas_min clientWidth clientHeight * 0.22;
            radiusStep = canvas_min clientWidth clientHeight * 0.18;
            sortedLevels = sort_key fst (levelMap ns (distances m));
            positions = foldl (place_ring baseRadius radiusStep) [] sortedLevels
        in (case hubId m of
              None \<Rightarrow> positions
            | Some h \<Rightarrow>
                if h \<noteq> [] \<and> \<not> map_has h positions then map_set h (0, 0) positions
                else positions))"

text \<open>
  The later revision, bundled in server.js: every group goes on a ring, the ring index of
  a finite level is the level itself, and every position is moved by a jitter of
  \<open>(Math.random() - 0.5) * 18\<close> on both axes. \<open>random k\<close> is the value of the
  \<open>k\<close>-th call of \<open>Math.random\<close>, a number in \<open>[0, 1)\<close>; the fold carries the
  number of calls made so far.
\<close>

definition place_ring_jitter ::
  "(nat \<Rightarrow> real) \<Rightarrow> real \<Rightarrow> real \<Rightarrow> nat \<Rightarrow> (string \<times> position) list \<times> nat \<Rightarrow>
   nat \<times> string list \<Rightarrow> (string \<times> position) list \<times> nat" where
  "place_ring_jitter random baseRadius radiusStep n_levels s entry =
     (let level = fst entry; ids = snd entry;
          ringIndex = (if level = MAX_SAFE_INTEGER then n_levels else level);
          radius = baseRadius + radiusStep * (real ringIndex - 1);
          count = length ids;
          angleStep = (2 * pi) / real count
      in (place_all (\<lambda>index i.
                       (cos (angleStep * real index - pi / 2) * radius
                          + (random (snd s + index) - 0.5) * 18,
                        sin (angleStep * real index - pi / 2) * radius
                          + (random (snd s + index) - 0.5) * 18)) ids (fst s),
          snd s + count))"

definition computeFocusedLayout_jitter ::
  "(nat \<Rightarrow> real) \<Rightarrow> nat \<Rightarrow> nat \<Rightarrow> node list \<Rightarrow> metrics \<Rightarrow> (string \<times> position) list" where
  "computeFocusedLayout_jitter random clientWidth clientHeight ns m =
     (if ns = [] then []
      else
        let baseRadius = canvas_min clientWidth clientHeight * 0.24;
            radiusStep = canvas_min clientWidth clientHeight * 0.2;
            sortedLevels = sort_key fst (levelMap ns (distances m));
            positions = fst (foldl (place_ring_jitter random baseRadius radiusStep
                                      (length sortedLevels)) ([], 0) sortedLevels)
        in (case hubId m of
              None \<Rightarrow> positions
            | Some h \<Rightarrow>
                if h \<noteq> [] \<and> \<not> map_has h positions then map_set h (0, 0) positions
                else positions))"

section \<open>Vocabulary of the properties (layout)\<close>

text \<open>
  The layer of a node in the hierarchical layout is its entry in \<open>levelAssignments\<close>;
  the members of a layer, in the order of the assignments; the rows of the layout before
  the hub is recentred; and the multiset of the x-coordinates of a layer.
\<close>

definition layer_members :: "(string \<times> nat) list \<Rightarrow> nat \<Rightarrow> string list" where
  "layer_members la L = map fst (filter (\<lambda>il. snd il = L) la)"

definition layer_of :: "snapshot \<Rightarrow> string \<Rightarrow> nat option" where
  "layer_of g i = map_of (levelAssignments (nodes g) (distances (buildMetrics g))) i"

definition hierarchy_rows ::
  "node list \<Rightarrow> metrics \<Rightarrow> (string \<times> position) list" where
  "hierarchy_rows ns m =
     (let sortedLevels = sort_key fst (levelBuckets (levelAssignments ns (distances m)))
      in foldl (place_layer (degrees m) (length sortedLevels)) [] sortedLevels)"

definition layer_xs :: "snapshot \<Rightarrow> nat \<Rightarrow> real multiset" where
  "layer_xs g L =
     image_mset (\<lambda>i. fst (position_of (computeHierarchyLayout (nodes g) (buildMetrics g)) i))
       (mset (layer_members (levelAssignments (nodes g) (distances (buildMetrics g))) L))"

text \<open>
  For the focused layout: the level of every node of the list, in the list's order (its
  \<open>layer_members\<close> are the group of a level); the point of a ring of a given radius at
  the \<open>index\<close>-th of \<open>n\<close> evenly spaced angles, starting at -90 degrees; the jitter
  of the \<open>k\<close>-th call of \<open>Math.random\<close>; and the position each revision gives the
  \<open>index\<close>-th node of a group.
\<close>

definition node_levels :: "node list \<Rightarrow> (string \<times> nat) list \<Rightarrow> (string \<times> nat) list" where
  "node_levels ns ds = map (\<lambda>n. (node_id n, level_of ds (node_id n))) ns"

definition ring_point :: "real \<Rightarrow> nat \<Rightarrow> nat \<Rightarrow> position" where
  "ring_point radius n index =
     (cos ((2 * pi) / real n * real index - pi / 2) * radius,
      sin ((2 * pi) / real n * real index - pi / 2) * radius)"

definition jitter :: "(nat \<Rightarrow> real) \<Rightarrow> nat \<Rightarrow> real" where
  "jitter random k = (random k - 0.5) * 18"

definition ring_rule :: "real \<Rightarrow> real \<Rightarrow> nat \<times> string list \<Rightarrow> nat \<Rightarrow> string \<Rightarrow> position" where
  "ring_rule baseRadius radiusStep e index i =
     (if fst e = 0 \<or> fst e = MAX_SAFE_INTEGER then (real index * 40, real index * 40)
      else ring_point (baseRadius + radiusStep * (real (fst e) - 1)) (length (snd e)) index)"

definition jitter_rule ::
  "(nat \<Rightarrow> real) \<Rightarrow> real \<Rightarrow> real \<Rightarrow> nat \<Rightarrow> nat \<Rightarrow> nat \<times> string list \<Rightarrow> nat \<Rightarrow> string \<Rightarrow> position" where
  "jitter_rule random baseRadius radiusStep n_levels k e index i =
     (fst (ring_point (baseRadius + radiusStep *
              (real (if fst e = MAX_SAFE_INTEGER then n_levels else fst e) - 1))
            (length (snd e)) index) + jitter random (k + index),
      snd (ring_point (baseRadius + radiusStep *
              (real (if fst e = MAX_SAFE_INTEGER then n_levels else fst e) - 1))
            (length (snd e)) index) + jitter random (k + index))"
section \<open>Canonicalizer and aggregator: proofs\<close>

text \<open>
  C5. For all concept strings whose normalized (trimmed, lower-cased) forms are non-empty
  and distinct, the edge key does not depend on the order of its two arguments.
\<close>

theorem buildEdgeKey_order_independent:
  assumes "toLowerCase (trim a) \<noteq> []" and "toLowerCase (trim b) \<noteq> []"
    and "toLowerCase (trim a) \<noteq> toLowerCase (trim b)"
  shows "buildEdgeKey a b = buildEdgeKey b a"
proof -
  let ?a = "toLowerCase (trim a)" and ?b = "toLowerCase (trim b)"
  from assms(3) consider "?a < ?b" | "?b < ?a"
    using less_linear by blast
  then show ?thesis
  proof cases
    case 1
    then have "\<not> ?b < ?a" by (simp add: not_less less_imp_le)
    with 1 show ?thesis by (simp add: buildEdgeKey_def Let_def)
  next
    case 2
    then have "\<not> ?a < ?b" by (simp add: not_less less_imp_le)
    with 2 show ?thesis by (simp add: buildEdgeKey_def Let_def)
  qed
qed

text \<open>The theorem at ("Trust", " cooperation").\<close>

theorem buildEdgeKey_order_independent_witness:
  "buildEdgeKey ''Trust'' '' cooperation'' = buildEdgeKey '' cooperation'' ''Trust''
   \<and> buildEdgeKey ''Trust'' '' cooperation'' = ''cooperation::trust''"
proof -
  have h1: "toLowerCase (trim ''Trust'') \<noteq> []" by code_simp
  have h2: "toLowerCase (trim '' cooperation'') \<noteq> []" by code_simp
  have h3: "toLowerCase (trim ''Trust'') \<noteq> toLowerCase (trim '' cooperation'')" by code_simp
  have v: "buildEdgeKey ''Trust'' '' cooperation'' = ''cooperation::trust''" by code_simp
  from buildEdgeKey_order_independent [OF h1 h2 h3] v show ?thesis by simp
qed

lemma trim_Nil [simp]: "trim [] = []"
  by (simp add: trim_def)

lemma toLowerCase_Nil_iff [simp]: "toLowerCase s = [] \<longleftrightarrow> s = []"
  by (simp add: toLowerCase_def)

text \<open>
  Normalization beyond ASCII: the no-break space is trimmed, U+00C9 is lower-cased to
  U+00E9, the multiplication sign U+00D7 and the sharp s U+00DF are their own lower case;
  a concept of one no-break space is empty, and the submissions (U+00C9, "z") and
  ("z", U+00E9) have one edge key.
\<close>

lemma normalization_latin1:
  "trim [CHR 0xA0, CHR ''x'', CHR 0x09] = ''x''"
  "toLowerCase [CHR 0xC9, CHR 0xD7, CHR 0xDE, CHR 0xDF] = [CHR 0xE9, CHR 0xD7, CHR 0xFE, CHR 0xDF]"
  "invalid_pair [CHR 0xA0] ''x''"
  "request_key (example_request ''s1'' [CHR 0xC9] ''z'') = Some (''room'', [CHR ''z'', CHR '':'', CHR '':'', CHR 0xE9])"
  "request_key (example_request ''s2'' ''z'' [CHR 0xE9]) = Some (''room'', [CHR ''z'', CHR '':'', CHR '':'', CHR 0xE9])"
  by code_simp+

lemma hasSessionEdge_iff:
  "hasSessionEdge st sid sc k \<longleftrightarrow> sid \<in> recorded_sessions st sc k"
proof -
  have "hasSessionEdge st sid sc k \<longleftrightarrow>
        (\<exists>r \<in> set (session_edges_table st).
            se_session_id r = sid \<and> se_session_code r = sc \<and> se_edge_key r = k)"
    by (auto simp: hasSessionEdge_def find_None_iff)
  then show ?thesis by (auto simp: recorded_sessions_def)
qed

lemma submit_handler_rejected:
  assumes "request_key req = None"
  shows "snd (submit_handler f st req) = st"
    and "\<exists>n msg. fst (submit_handler f st req) = JsonError n msg \<and> (n = 400 \<or> n = 404)"
  using assms
  by (auto simp: submit_handler_def request_key_def invalid_pair_def Let_def
           split: option.splits if_splits)

lemma submit_handler_no_session:
  assumes "request_key req = Some (sc, k)" and "getSessionStmt st sc = None"
  shows "submit_handler f st req = (JsonError 404 ''Session not found.'', st)"
  using assms
  by (auto simp: submit_handler_def request_key_def Let_def split: option.splits if_splits)

lemma submit_handler_duplicate:
  assumes "request_key req = Some (sc, k)" and "getSessionStmt st sc \<noteq> None"
    and "hasSessionEdge st (req_sessionId req) sc k"
  shows "submit_handler f st req = (StatusDuplicate (getGraph st sc), st)"
  using assms
  by (auto simp: submit_handler_def request_key_def invalid_pair_def Let_def
           split: option.splits if_splits)

lemma submit_recorded:
  assumes "request_key req = Some (sc, k)" and "getSessionStmt st sc \<noteq> None"
    and "\<not> hasSessionEdge st (req_sessionId req) sc k"
  shows "\<exists>a b st'. submit st req = (StatusOk (getGraph st' sc), st') \<and>
           st' = st\<lparr>session_edges_table := session_edges_table st @
                     [\<lparr>se_session_id = req_sessionId req, se_session_code = sc, se_edge_key = k\<rparr>],
                   edges_table := upsert_rows sc a b k (edges_table st)\<rparr>"
  using assms
  by (auto simp: submit_def submit_handler_def request_key_def invalid_pair_def Let_def
                 recordSessionEdge_def upsertEdge_def
           split: option.splits if_splits)


lemma upsert_rows_other:
  "sc' \<noteq> sc \<or> k' \<noteq> k \<Longrightarrow>
   filter (\<lambda>r. session_code r = sc' \<and> edge_key r = k') (upsert_rows sc a b k rows) =
   filter (\<lambda>r. session_code r = sc' \<and> edge_key r = k') rows"
  by (induction rows) auto

lemma upsert_rows_same:
  "map weight (filter (\<lambda>r. session_code r = sc \<and> edge_key r = k) (upsert_rows sc a b k rows)) =
   (case map weight (filter (\<lambda>r. session_code r = sc \<and> edge_key r = k) rows) of
      [] \<Rightarrow> [1] | w # ws \<Rightarrow> (w + 1) # ws)"
  by (induction rows) auto

lemma finite_recorded_sessions [simp]: "finite (recorded_sessions st sc k)"
  by (simp add: recorded_sessions_def)

lemma recorded_sessions_append:
  "recorded_sessions (st\<lparr>session_edges_table := session_edges_table st @ [r],
                         edges_table := e\<rparr>) sc k =
   recorded_sessions st sc k \<union>
     (if se_session_code r = sc \<and> se_edge_key r = k then {se_session_id r} else {})"
  unfolding recorded_sessions_def by (simp; blast)

lemma stored_weights_upsert_same:
  "stored_weights (st\<lparr>session_edges_table := s, edges_table := upsert_rows sc a b k (edges_table st)\<rparr>) sc k =
     (case stored_weights st sc k of [] \<Rightarrow> [1] | w # ws \<Rightarrow> (w + 1) # ws)"
  by (simp add: stored_weights_def upsert_rows_same)

lemma stored_weights_upsert_other:
  "sc' \<noteq> sc \<or> k' \<noteq> k \<Longrightarrow>
   stored_weights (st\<lparr>session_edges_table := s, edges_table := upsert_rows sc a b k (edges_table st)\<rparr>) sc' k' =
     stored_weights st sc' k'"
  by (simp add: stored_weights_def upsert_rows_other)

lemma counted_insert:
  assumes "counted st sc k" and "sid \<notin> recorded_sessions st sc k"
    and "recorded_sessions st' sc k = insert sid (recorded_sessions st sc k)"
    and "stored_weights st' sc k =
           (case stored_weights st sc k of [] \<Rightarrow> [1] | w # ws \<Rightarrow> (w + 1) # ws)"
  shows "counted st' sc k"
proof (cases "recorded_sessions st sc k = {}")
  case True
  with assms show ?thesis by (simp add: counted_def)
next
  case False
  with assms show ?thesis by (simp add: counted_def)
qed

lemma submit_step:
  assumes "getSessionStmt st sc \<noteq> None"
  shows "sessions_table (snd (submit st req)) = sessions_table st
      \<and> recorded_sessions (snd (submit st req)) sc k =
           recorded_sessions st sc k \<union>
             (if request_key req = Some (sc, k) then {req_sessionId req} else {})
      \<and> (counted st sc k \<longrightarrow> counted (snd (submit st req)) sc k)"
proof -
  consider (rej) "request_key req = None"
    | (nos) sc' k' where "request_key req = Some (sc', k')" "getSessionStmt st sc' = None"
    | (dup) sc' k' where "request_key req = Some (sc', k')" "getSessionStmt st sc' \<noteq> None"
        "hasSessionEdge st (req_sessionId req) sc' k'"
    | (new) sc' k' where "request_key req = Some (sc', k')" "getSessionStmt st sc' \<noteq> None"
        "\<not> hasSessionEdge st (req_sessionId req) sc' k'"
    by (cases "request_key req") force+
  then show ?thesis
  proof cases
    case rej
    then show ?thesis by (simp add: submit_def submit_handler_rejected)
  next
    case nos
    with assms have "sc' \<noteq> sc" by auto
    with nos show ?thesis by (simp add: submit_def submit_handler_no_session)
  next
    case dup
    then have s: "submit st req = (StatusDuplicate (getGraph st sc'), st)"
      by (simp add: submit_def submit_handler_duplicate)
    have "request_key req = Some (sc, k) \<Longrightarrow> req_sessionId req \<in> recorded_sessions st sc k"
      using dup by (simp add: hasSessionEdge_iff)
    then show ?thesis unfolding s by (auto simp: insert_absorb)
  next
    case new
    from submit_recorded [OF new] obtain a b st' where
      s: "submit st req = (StatusOk (getGraph st' sc'), st')" and
      st': "st' = st\<lparr>session_edges_table := session_edges_table st @
                     [\<lparr>se_session_id = req_sessionId req, se_session_code = sc', se_edge_key = k'\<rparr>],
                   edges_table := upsert_rows sc' a b k' (edges_table st)\<rparr>"
      by blast
    have sess: "sessions_table st' = sessions_table st"
      by (simp add: st')
    show ?thesis
    proof (cases "(sc', k') = (sc, k)")
      case True
      have rec: "recorded_sessions st' sc k = insert (req_sessionId req) (recorded_sessions st sc k)"
        unfolding st' recorded_sessions_append using True by simp
      have notin: "req_sessionId req \<notin> recorded_sessions st sc k"
        using new(3) True by (simp add: hasSessionEdge_iff)
      have w: "stored_weights st' sc k =
           (case stored_weights st sc k of [] \<Rightarrow> [1] | w # ws \<Rightarrow> (w + 1) # ws)"
        unfolding st' using True by (simp add: stored_weights_upsert_same)
      have c: "counted st sc k \<Longrightarrow> counted st' sc k"
        using counted_insert [OF _ notin rec w] by blast
      have "request_key req = Some (sc, k)" using new(1) True by simp
      with rec c sess show ?thesis unfolding s by simp
    next
      case False
      have rec: "recorded_sessions st' sc k = recorded_sessions st sc k"
        unfolding st' recorded_sessions_append using False by auto
      have w: "stored_weights st' sc k = stored_weights st sc k"
        unfolding st' using False by (intro stored_weights_upsert_other) auto
      from False new(1) have "request_key req \<noteq> Some (sc, k)" by auto
      with rec w sess show ?thesis unfolding s by (simp add: counted_def)
    qed
  qed
qed

lemma serve_invariant:
  assumes "getSessionStmt st sc \<noteq> None" and "counted st sc k"
  shows "counted (serve st reqs) sc k \<and>
         recorded_sessions (serve st reqs) sc k =
           recorded_sessions st sc k \<union>
             req_sessionId ` {r \<in> set reqs. request_key r = Some (sc, k)}"
  using assms
proof (induction reqs arbitrary: st)
  case Nil
  then show ?case by simp
next
  case (Cons req reqs)
  let ?st1 = "snd (submit st req)"
  have 1: "getSessionStmt ?st1 sc \<noteq> None"
    using Cons.prems(1) submit_step [OF Cons.prems(1), of req]
    by (simp add: getSessionStmt_def)
  have 2: "counted ?st1 sc k"
    using submit_step [OF Cons.prems(1)] Cons.prems(2) by blast
  have 3: "recorded_sessions ?st1 sc k =
           recorded_sessions st sc k \<union>
             (if request_key req = Some (sc, k) then {req_sessionId req} else {})"
    using submit_step [OF Cons.prems(1)] by blast
  have 4: "req_sessionId ` {r \<in> set (req # reqs). request_key r = Some (sc, k)} =
           (if request_key req = Some (sc, k) then {req_sessionId req} else {}) \<union>
           req_sessionId ` {r \<in> set reqs. request_key r = Some (sc, k)}"
    by auto
  have 5: "serve st (req # reqs) = serve ?st1 reqs" by simp
  from Cons.IH [OF 1 2] show ?case
    unfolding 3 4 5 by (simp only: Un_assoc)
qed

lemma responses_ok:
  assumes "getSessionStmt st sc \<noteq> None"
    and "distinct (map req_sessionId (filter (\<lambda>r. request_key r = Some (sc, k)) reqs))"
    and "recorded_sessions st sc k \<inter> req_sessionId ` {r \<in> set reqs. request_key r = Some (sc, k)} = {}"
  shows "list_all2 (\<lambda>req resp. request_key req = Some (sc, k) \<longrightarrow> is_ok resp) reqs (responses st reqs)"
  using assms
proof (induction reqs arbitrary: st)
  case Nil
  then show ?case by simp
next
  case (Cons req reqs)
  let ?st1 = "snd (submit st req)"
  note step = submit_step [OF Cons.prems(1), of req k]
  have 1: "getSessionStmt ?st1 sc \<noteq> None"
    using Cons.prems(1) step by (simp add: getSessionStmt_def)
  have 2: "distinct (map req_sessionId (filter (\<lambda>r. request_key r = Some (sc, k)) reqs))"
    using Cons.prems(2) by (simp split: if_splits)
  have 3: "recorded_sessions ?st1 sc k \<inter> req_sessionId ` {r \<in> set reqs. request_key r = Some (sc, k)} = {}"
  proof (cases "request_key req = Some (sc, k)")
    case True
    have a1: "req_sessionId req \<notin> req_sessionId ` {r \<in> set reqs. request_key r = Some (sc, k)}"
      using Cons.prems(2) True by auto
    have a2: "recorded_sessions ?st1 sc k = insert (req_sessionId req) (recorded_sessions st sc k)"
      using step True by simp
    have a3: "recorded_sessions st sc k \<inter> req_sessionId ` {r \<in> set reqs. request_key r = Some (sc, k)} = {}"
      using Cons.prems(3) by auto
    show ?thesis unfolding a2 using a1 a3 by simp
  next
    case False
    then have "recorded_sessions ?st1 sc k = recorded_sessions st sc k"
      using step by simp
    then show ?thesis using Cons.prems(3) by auto
  qed
  have hd: "request_key req = Some (sc, k) \<Longrightarrow> is_ok (fst (submit st req))"
  proof -
    assume t: "request_key req = Some (sc, k)"
    then have "req_sessionId req \<notin> recorded_sessions st sc k"
      using Cons.prems(3) by auto
    then have "\<not> hasSessionEdge st (req_sessionId req) sc k"
      by (simp add: hasSessionEdge_iff)
    from submit_recorded [OF t Cons.prems(1) this] show ?thesis
      by (auto simp: is_ok_def)
  qed
  from Cons.IH [OF 1 2 3] hd show ?case by simp
qed

text \<open>
  C1. Weight accuracy. Take a scope \<open>sc\<close> whose session exists and an edge key \<open>k\<close>
  that is fresh there (no stored row, no recorded session). Serve any run of requests
  in which the submissions that reach \<open>k\<close> in \<open>sc\<close> come from pairwise distinct
  sessions; other requests may be interleaved. Then each of those \<open>N\<close> submissions is
  answered \<open>ok\<close>, exactly \<open>N\<close> sessions have recorded the key, and the stored row of
  the key carries weight \<open>N\<close> (there is no row when \<open>N = 0\<close>).
\<close>

theorem weight_counts_distinct_sessions:
  assumes "getSessionStmt st sc \<noteq> None"
    and "stored_weights st sc k = []" and "recorded_sessions st sc k = {}"
    and "distinct (map req_sessionId (filter (\<lambda>r. request_key r = Some (sc, k)) reqs))"
  shows "stored_weights (serve st reqs) sc k =
           (if filter (\<lambda>r. request_key r = Some (sc, k)) reqs = [] then []
            else [length (filter (\<lambda>r. request_key r = Some (sc, k)) reqs)])
       \<and> card (recorded_sessions (serve st reqs) sc k) =
            length (filter (\<lambda>r. request_key r = Some (sc, k)) reqs)
       \<and> list_all2 (\<lambda>req resp. request_key req = Some (sc, k) \<longrightarrow> is_ok resp)
            reqs (responses st reqs)"
proof -
  let ?T = "filter (\<lambda>r. request_key r = Some (sc, k)) reqs"
  have c0: "counted st sc k"
    using assms(2,3) by (simp add: counted_def)
  from serve_invariant [OF assms(1) c0, of reqs]
  have c: "counted (serve st reqs) sc k"
    and r: "recorded_sessions (serve st reqs) sc k =
              req_sessionId ` {r \<in> set reqs. request_key r = Some (sc, k)}"
    using assms(3) by auto
  have "req_sessionId ` {r \<in> set reqs. request_key r = Some (sc, k)} = set (map req_sessionId ?T)"
    by auto
  then have card: "card (recorded_sessions (serve st reqs) sc k) = length ?T"
    using assms(4) r by (metis distinct_card length_map)
  have e: "recorded_sessions (serve st reqs) sc k = {} \<longleftrightarrow> ?T = []"
    using card by (metis card_eq_0_iff finite_recorded_sessions length_0_conv)
  have w: "stored_weights (serve st reqs) sc k = (if ?T = [] then [] else [length ?T])"
    using c unfolding counted_def card e .
  have ok: "list_all2 (\<lambda>req resp. request_key req = Some (sc, k) \<longrightarrow> is_ok resp)
            reqs (responses st reqs)"
    by (rule responses_ok [OF assms(1) assms(4)]) (simp add: assms(3))
  from w card ok show ?thesis by blast
qed

text \<open>Two sessions submit the pair (in either order and casing) among other requests.\<close>

lemma example_keys:
  "filter (\<lambda>r. request_key r = Some (''room'', ''cooperation::trust'')) example_run =
     [example_request ''s1'' ''Trust'' ''Cooperation'',
      example_request ''s2'' '' cooperation'' ''TRUST'']"
  by code_simp

theorem weight_counts_distinct_sessions_witness:
  "stored_weights (serve example_db example_run) ''room'' ''cooperation::trust'' = [2]
   \<and> card (recorded_sessions (serve example_db example_run) ''room'' ''cooperation::trust'') = 2
   \<and> list_all2 (\<lambda>req resp. request_key req = Some (''room'', ''cooperation::trust'') \<longrightarrow> is_ok resp)
        example_run (responses example_db example_run)"
proof -
  have h1: "getSessionStmt example_db ''room'' \<noteq> None" by code_simp
  have h2: "stored_weights example_db ''room'' ''cooperation::trust'' = []" by code_simp
  have h3: "recorded_sessions example_db ''room'' ''cooperation::trust'' = {}"
    by (simp add: recorded_sessions_def example_db_def)
  have h4: "distinct (map req_sessionId
      (filter (\<lambda>r. request_key r = Some (''room'', ''cooperation::trust'')) example_run))"
    unfolding example_keys by (simp add: example_request_def)
  from weight_counts_distinct_sessions [OF h1 h2 h3 h4] show ?thesis
    unfolding example_keys by simp
qed

text \<open>
  The invariant behind C1, for every run of requests (repeated submissions included): if
  the stored weight of a key counts the sessions that recorded it, it still does after
  the run, and the sessions that recorded it are those before plus the sessions of the
  valid submissions of that key.
\<close>

theorem weight_counts_recorded_sessions:
  assumes "getSessionStmt st sc \<noteq> None" and "counted st sc k"
  shows "counted (serve st reqs) sc k \<and>
         recorded_sessions (serve st reqs) sc k =
           recorded_sessions st sc k \<union>
             req_sessionId ` {r \<in> set reqs. request_key r = Some (sc, k)}"
  using assms by (rule serve_invariant)

theorem weight_counts_recorded_sessions_witness:
  "counted (serve example_db example_run) ''room'' ''cooperation::trust''
   \<and> recorded_sessions (serve example_db example_run) ''room'' ''cooperation::trust''
       = {''s1'', ''s2''}"
proof -
  have h1: "getSessionStmt example_db ''room'' \<noteq> None" by code_simp
  have h2: "counted example_db ''room'' ''cooperation::trust''"
    by (simp add: counted_def recorded_sessions_def stored_weights_def example_db_def)
  have e: "recorded_sessions example_db ''room'' ''cooperation::trust'' = {}"
    by (simp add: recorded_sessions_def example_db_def)
  have "{r \<in> set example_run. request_key r = Some (''room'', ''cooperation::trust'')} =
        set (filter (\<lambda>r. request_key r = Some (''room'', ''cooperation::trust'')) example_run)"
    by simp
  then have s: "req_sessionId ` {r \<in> set example_run.
                  request_key r = Some (''room'', ''cooperation::trust'')} = {''s1'', ''s2''}"
    unfolding example_keys by (simp add: example_request_def)
  from weight_counts_recorded_sessions [OF h1 h2, of example_run] show ?thesis
    unfolding e s by simp
qed

text \<open>
  C2. Idempotence. A valid submission by a session that has not yet recorded the key is
  answered \<open>ok\<close> (recorded); the same request again is answered \<open>duplicate\<close> with the
  current snapshot and changes nothing. The weight of the key goes up by exactly one
  (to 1 when the edge is new) over the two calls.
\<close>

theorem submit_twice_recorded_then_duplicate:
  assumes "validateSessionCode (req_code req) = Some sc" and "getSessionStmt st sc \<noteq> None"
    and "req_source req = Some a" and "req_target req = Some b" and "\<not> invalid_pair a b"
    and "k = buildEdgeKey (toLowerCase (trim a)) (toLowerCase (trim b))"
    and "\<not> hasSessionEdge st (req_sessionId req) sc k"
  shows "\<exists>st1. submit st req = (StatusOk (getGraph st1 sc), st1)
            \<and> submit st1 req = (StatusDuplicate (getGraph st1 sc), st1)
            \<and> stored_weights st1 sc k =
                 (case stored_weights st sc k of [] \<Rightarrow> [1] | w # ws \<Rightarrow> (w + 1) # ws)"
proof -
  have key: "request_key req = Some (sc, k)"
    using assms by (simp add: request_key_def)
  from submit_recorded [OF key assms(2) assms(7)] obtain a' b' st1 where
    s: "submit st req = (StatusOk (getGraph st1 sc), st1)" and
    st1: "st1 = st\<lparr>session_edges_table := session_edges_table st @
                     [\<lparr>se_session_id = req_sessionId req, se_session_code = sc, se_edge_key = k\<rparr>],
                   edges_table := upsert_rows sc a' b' k (edges_table st)\<rparr>"
    by blast
  have sess: "getSessionStmt st1 sc \<noteq> None"
    using assms(2) by (simp add: st1 getSessionStmt_def)
  have "req_sessionId req \<in> recorded_sessions st1 sc k"
    unfolding st1 recorded_sessions_append by simp
  then have has: "hasSessionEdge st1 (req_sessionId req) sc k"
    by (simp add: hasSessionEdge_iff)
  have d: "submit st1 req = (StatusDuplicate (getGraph st1 sc), st1)"
    unfolding submit_def by (rule submit_handler_duplicate [OF key sess has])
  have w: "stored_weights st1 sc k =
             (case stored_weights st sc k of [] \<Rightarrow> [1] | w # ws \<Rightarrow> (w + 1) # ws)"
    unfolding st1 by (rule stored_weights_upsert_same)
  from s d w show ?thesis by blast
qed

text \<open>One session submits ("Trust", "Cooperation") twice.\<close>

theorem submit_twice_recorded_then_duplicate_witness:
  "\<exists>st1. submit example_db (example_request ''s1'' ''Trust'' ''Cooperation'')
              = (StatusOk (getGraph st1 ''room''), st1)
         \<and> submit st1 (example_request ''s1'' ''Trust'' ''Cooperation'')
              = (StatusDuplicate (getGraph st1 ''room''), st1)
         \<and> stored_weights st1 ''room'' ''cooperation::trust'' = [1]"
proof -
  let ?req = "example_request ''s1'' ''Trust'' ''Cooperation''"
  have h1: "validateSessionCode (req_code ?req) = Some ''room''" by code_simp
  have h2: "getSessionStmt example_db ''room'' \<noteq> None" by code_simp
  have h3: "req_source ?req = Some ''Trust''" by code_simp
  have h4: "req_target ?req = Some ''Cooperation''" by code_simp
  have h5: "\<not> invalid_pair ''Trust'' ''Cooperation''" by code_simp
  have h6: "''cooperation::trust'' =
      buildEdgeKey (toLowerCase (trim ''Trust'')) (toLowerCase (trim ''Cooperation''))"
    by code_simp
  have h7: "\<not> hasSessionEdge example_db (req_sessionId ?req) ''room'' ''cooperation::trust''"
    by code_simp
  have w0: "stored_weights example_db ''room'' ''cooperation::trust'' = []" by code_simp
  from submit_twice_recorded_then_duplicate [OF h1 h2 h3 h4 h5 h6 h7] show ?thesis
    unfolding w0 by simp
qed

text \<open>
  C6. A submission whose pair is invalid (a concept empty after normalization, or both
  concepts normalizing to the same text) is answered with an explicit error, status 400
  (or 404 / 400 for an unknown or malformed scope, which is checked first), and leaves
  every table as it was, whatever the storage would have done.
\<close>

theorem invalid_pair_rejected_without_mutation:
  assumes "req_source req = Some a" and "req_target req = Some b" and "invalid_pair a b"
  shows "(\<exists>msg. fst (submit_handler f st req) = JsonError 400 msg
              \<or> fst (submit_handler f st req) = JsonError 404 msg)
       \<and> snd (submit_handler f st req) = st"
proof -
  have "request_key req = None"
    using assms by (simp add: request_key_def split: option.splits)
  from submit_handler_rejected [OF this, of f st] show ?thesis by auto
qed

text \<open>The pair of U+00C9 and of U+00E9 followed by a no-break space normalizes to one
  concept; so does ("a", "A ").\<close>

theorem invalid_pair_rejected_without_mutation_witness:
  "fst (submit_handler NoFault example_db (example_request ''s1'' [CHR 0xC9] [CHR 0xE9, CHR 0xA0]))
     = JsonError 400 ''Concepts must be non-empty and distinct.''
   \<and> snd (submit_handler NoFault example_db (example_request ''s1'' [CHR 0xC9] [CHR 0xE9, CHR 0xA0]))
     = example_db
   \<and> snd (submit_handler NoFault example_db (example_request ''s1'' ''a'' ''A '')) = example_db"
proof -
  let ?req = "example_request ''s1'' [CHR 0xC9] [CHR 0xE9, CHR 0xA0]"
  let ?req' = "example_request ''s1'' ''a'' ''A ''"
  have h1: "req_source ?req = Some [CHR 0xC9]" by code_simp
  have h2: "req_target ?req = Some [CHR 0xE9, CHR 0xA0]" by code_simp
  have h3: "invalid_pair [CHR 0xC9] [CHR 0xE9, CHR 0xA0]" by code_simp
  have h1': "req_source ?req' = Some ''a''" by code_simp
  have h2': "req_target ?req' = Some ''A ''" by code_simp
  have h3': "invalid_pair ''a'' ''A ''" by code_simp
  have v: "fst (submit_handler NoFault example_db ?req)
     = JsonError 400 ''Concepts must be non-empty and distinct.''" by code_simp
  from invalid_pair_rejected_without_mutation [OF h1 h2 h3, of NoFault example_db]
    invalid_pair_rejected_without_mutation [OF h1' h2' h3', of NoFault example_db] v
  show ?thesis by simp
qed

text \<open>
  C7. The handler runs \<open>recordSessionEdge\<close> and then \<open>upsertEdge\<close> as two statements
  of their own, outside any transaction (only the migrations use \<open>db.transaction\<close>).
  When the second statement fails, the first has already been committed: the submission
  stays recorded without its increment, and the session's retry is answered
  \<open>duplicate\<close>, so the weight never counts it.
\<close>

theorem upsert_failure_keeps_the_record:
  "submit_handler UpsertFails example_db (example_request ''s1'' ''Trust'' ''Cooperation'') =
     (InternalServerError StorageFailure,
      example_db\<lparr>session_edges_table :=
        [\<lparr>se_session_id = ''s1'', se_session_code = ''room'',
          se_edge_key = ''cooperation::trust''\<rparr>]\<rparr>)
   \<and> submit (snd (submit_handler UpsertFails example_db
                    (example_request ''s1'' ''Trust'' ''Cooperation'')))
        (example_request ''s1'' ''Trust'' ''Cooperation'') =
     (StatusDuplicate \<lparr>nodes = [], edges = []\<rparr>,
      example_db\<lparr>session_edges_table :=
        [\<lparr>se_session_id = ''s1'', se_session_code = ''room'',
          se_edge_key = ''cooperation::trust''\<rparr>]\<rparr>)"
  by code_simp

text \<open>The same for every valid first submission: the record is written, no weight moves.\<close>

lemma upsert_failure_not_atomic:
  assumes "request_key req = Some (sc, k)" and "getSessionStmt st sc \<noteq> None"
    and "\<not> hasSessionEdge st (req_sessionId req) sc k"
  shows "fst (submit_handler UpsertFails st req) = InternalServerError StorageFailure
       \<and> edges_table (snd (submit_handler UpsertFails st req)) = edges_table st
       \<and> hasSessionEdge (snd (submit_handler UpsertFails st req)) (req_sessionId req) sc k"
proof -
  let ?row = "\<lparr>se_session_id = req_sessionId req, se_session_code = sc, se_edge_key = k\<rparr>"
  let ?st1 = "st\<lparr>session_edges_table := session_edges_table st @ [?row]\<rparr>"
  have e: "submit_handler UpsertFails st req = (InternalServerError StorageFailure, ?st1)"
    using assms
    by (auto simp: submit_handler_def request_key_def invalid_pair_def Let_def
                   recordSessionEdge_def upsertEdge_def
             split: option.splits if_splits)
  have "?row \<in> set (session_edges_table ?st1)" by simp
  then have "hasSessionEdge ?st1 (req_sessionId req) sc k"
    unfolding hasSessionEdge_def find_None_iff by force
  then show ?thesis unfolding e by simp
qed

section \<open>Snapshots: the order of \<open>getGraph\<close>\<close>

lemma order_by_total: "order_by r1 r2 \<or> order_by r2 r1"
  unfolding order_by_def by (metis linorder_le_cases linorder_neqE_nat)

lemma order_by_trans: "order_by r1 r2 \<Longrightarrow> order_by r2 r3 \<Longrightarrow> order_by r1 r3"
  unfolding order_by_def by (metis order_trans less_trans)

lemma set_insert_row: "set (insert_row r xs) = insert r (set xs)"
  by (induction xs) auto

lemma mset_insert_row: "mset (insert_row r xs) = add_mset r (mset xs)"
  by (induction xs) auto

lemma sorted_insert_row:
  "sorted_wrt order_by xs \<Longrightarrow> sorted_wrt order_by (insert_row r xs)"
proof (induction xs)
  case Nil
  then show ?case by simp
next
  case (Cons x xs)
  show ?case
  proof (cases "order_by r x")
    case True
    then have "\<forall>y \<in> set xs. order_by r y"
      using Cons.prems order_by_trans by auto
    with True Cons.prems show ?thesis by simp
  next
    case False
    then have "order_by x r" using order_by_total by blast
    with False Cons show ?thesis by (simp add: set_insert_row)
  qed
qed

lemma sorted_foldr_insert_row: "sorted_wrt order_by (foldr insert_row rows [])"
  by (induction rows) (simp_all add: sorted_insert_row)

lemma mset_foldr_insert_row: "mset (foldr insert_row rows []) = mset rows"
  by (induction rows) (simp_all add: mset_insert_row)

lemma set_foldr_insert_row: "set (foldr insert_row rows []) = set rows"
  by (induction rows) (simp_all add: set_insert_row)

text \<open>The sorter keeps the key order of the index among the rows that tie.\<close>

lemma lex3_trans:
  fixes w1 w2 w3 :: nat and a1 a2 a3 k1 k2 k3 :: string
  assumes "w2 < w1 \<or> (w1 = w2 \<and> (a1 < a2 \<or> (a1 = a2 \<and> k1 \<le> k2)))"
    and "w3 < w2 \<or> (w2 = w3 \<and> (a2 < a3 \<or> (a2 = a3 \<and> k2 \<le> k3)))"
  shows "w3 < w1 \<or> (w1 = w3 \<and> (a1 < a3 \<or> (a1 = a3 \<and> k1 \<le> k3)))"
proof -
  consider "w2 < w1" | "w1 = w2" "a1 < a2" | "w1 = w2" "a1 = a2" "k1 \<le> k2"
    using assms(1) by blast
  then show ?thesis
  proof cases
    case 1
    with assms(2) show ?thesis by (metis less_trans)
  next
    case 2
    with assms(2) show ?thesis by (metis less_trans)
  next
    case 3
    with assms(2) show ?thesis by (metis order_trans)
  qed
qed

lemma tie_order_trans: "tie_order r1 r2 \<Longrightarrow> tie_order r2 r3 \<Longrightarrow> tie_order r1 r3"
  unfolding tie_order_def by (rule lex3_trans)

lemma tie_order_front:
  "order_by r x \<Longrightarrow> edge_key r \<le> edge_key x \<Longrightarrow> tie_order r x"
  unfolding order_by_def tie_order_def by (metis order_le_less)

lemma tie_order_behind: "\<not> order_by r x \<Longrightarrow> tie_order x r"
  unfolding order_by_def tie_order_def by (metis linorder_neqE_nat not_le_imp_less)

lemma tie_insert_row:
  "sorted_wrt tie_order xs \<Longrightarrow> \<forall>x \<in> set xs. edge_key r \<le> edge_key x \<Longrightarrow>
   sorted_wrt tie_order (insert_row r xs)"
proof (induction xs)
  case Nil
  then show ?case by simp
next
  case (Cons x xs)
  show ?case
  proof (cases "order_by r x")
    case True
    with Cons.prems have rx: "tie_order r x" by (simp add: tie_order_front)
    then have "\<forall>y \<in> set xs. tie_order r y"
      using Cons.prems(1) tie_order_trans by auto
    with True rx Cons.prems(1) show ?thesis by simp
  next
    case False
    then have "tie_order x r" by (rule tie_order_behind)
    with False Cons show ?thesis by (simp add: set_insert_row)
  qed
qed

lemma tie_foldr_insert_row:
  "sorted (map edge_key rows) \<Longrightarrow> sorted_wrt tie_order (foldr insert_row rows [])"
proof (induction rows)
  case Nil
  then show ?case by simp
next
  case (Cons r rows)
  then have "sorted_wrt tie_order (foldr insert_row rows [])"
    and "\<forall>x \<in> set (foldr insert_row rows []). edge_key r \<le> edge_key x"
    by (simp_all add: set_foldr_insert_row)
  then show ?case by (simp add: tie_insert_row)
qed

lemma listEdges_tie_order: "sorted_wrt tie_order (listEdges st sc)"
  unfolding listEdges_def index_scan_def by (rule tie_foldr_insert_row) simp

lemma listEdges_mset:
  "mset (listEdges st sc) = mset (filter (\<lambda>r. session_code r = sc) (edges_table st))"
  by (simp add: listEdges_def index_scan_def mset_foldr_insert_row)

text \<open>A sorted arrangement of given rows is unique when the order separates them.\<close>

lemma sorted_wrt_unique:
  assumes "sorted_wrt R xs" and "sorted_wrt R ys" and "mset xs = mset ys"
    and "\<And>x y. x \<in> set xs \<Longrightarrow> y \<in> set xs \<Longrightarrow> R x y \<Longrightarrow> R y x \<Longrightarrow> x = y"
  shows "xs = ys"
  using assms
proof (induction xs arbitrary: ys)
  case Nil
  then show ?case by simp
next
  case (Cons x xs)
  from Cons.prems(3) obtain y ys' where ys: "ys = y # ys'" by (cases ys) auto
  have sets: "set (x # xs) = set (y # ys')"
    using Cons.prems(3) unfolding ys by (rule mset_eq_setD)
  have xy: "x = y"
  proof (rule ccontr)
    assume ne: "x \<noteq> y"
    with sets have "x \<in> set ys'" and "y \<in> set xs" by auto
    with Cons.prems(1,2) have "R y x" and "R x y" unfolding ys by auto
    with Cons.prems(4) [of x y] sets have "x = y" by auto
    with ne show False by simp
  qed
  have "xs = ys'"
  proof (rule Cons.IH)
    show "sorted_wrt R xs" using Cons.prems(1) by simp
    show "sorted_wrt R ys'" using Cons.prems(2) unfolding ys by simp
    show "mset xs = mset ys'" using Cons.prems(3) unfolding ys xy by simp
    show "\<And>a b. a \<in> set xs \<Longrightarrow> b \<in> set xs \<Longrightarrow> R a b \<Longrightarrow> R b a \<Longrightarrow> a = b"
      using Cons.prems(4) by simp
  qed
  with xy show ?case unfolding ys by simp
qed

lemma unique_scope_keys:
  "distinct (map (\<lambda>r. (session_code r, edge_key r)) rows) \<Longrightarrow>
   distinct (map edge_key (filter (\<lambda>r. session_code r = sc) rows))"
proof (induction rows)
  case Nil
  then show ?case by simp
next
  case (Cons r rows)
  then show ?case by (auto simp: image_iff)
qed

lemma listEdges_stored_set:
  assumes u: "distinct (map (\<lambda>r. (session_code r, edge_key r)) (edges_table st))"
    and m: "mset (filter (\<lambda>r. session_code r = sc) (edges_table st')) =
            mset (filter (\<lambda>r. session_code r = sc) (edges_table st))"
  shows "listEdges st' sc = listEdges st sc"
proof (rule sorted_wrt_unique [symmetric])
  show "sorted_wrt tie_order (listEdges st sc)" by (rule listEdges_tie_order)
  show "sorted_wrt tie_order (listEdges st' sc)" by (rule listEdges_tie_order)
  show "mset (listEdges st sc) = mset (listEdges st' sc)"
    using m by (simp add: listEdges_mset)
  have "distinct (map edge_key (filter (\<lambda>r. session_code r = sc) (edges_table st)))"
    using u by (rule unique_scope_keys)
  moreover have "mset (map edge_key (listEdges st sc)) =
      mset (map edge_key (filter (\<lambda>r. session_code r = sc) (edges_table st)))"
    by (simp add: listEdges_mset)
  ultimately have "distinct (map edge_key (listEdges st sc))"
    by (metis mset_eq_imp_distinct_iff)
  then have inj: "inj_on edge_key (set (listEdges st sc))"
    by (simp add: distinct_map)
  fix x y
  assume "x \<in> set (listEdges st sc)" and "y \<in> set (listEdges st sc)"
    and "tie_order x y" and "tie_order y x"
  moreover from \<open>tie_order x y\<close> \<open>tie_order y x\<close> have "edge_key x = edge_key y"
    unfolding tie_order_def by (metis less_asym less_irrefl order_antisym)
  ultimately show "x = y" using inj by (simp add: inj_on_def)
qed


text \<open>The handler keeps the UNIQUE(session_code, edge_key) constraint of the table.\<close>

lemma upsert_rows_keys:
  "map (\<lambda>r. (session_code r, edge_key r)) (upsert_rows sc a b k rows) =
   (if (sc, k) \<in> set (map (\<lambda>r. (session_code r, edge_key r)) rows)
    then map (\<lambda>r. (session_code r, edge_key r)) rows
    else map (\<lambda>r. (session_code r, edge_key r)) rows @ [(sc, k)])"
  by (induction rows) auto

lemma upsert_rows_unique:
  "distinct (map (\<lambda>r. (session_code r, edge_key r)) rows) \<Longrightarrow>
   distinct (map (\<lambda>r. (session_code r, edge_key r)) (upsert_rows sc a b k rows))"
  unfolding upsert_rows_keys by simp

lemma submit_unique:
  assumes "distinct (map (\<lambda>r. (session_code r, edge_key r)) (edges_table st))"
  shows "distinct (map (\<lambda>r. (session_code r, edge_key r)) (edges_table (snd (submit st req))))"
proof (cases "request_key req")
  case None
  from submit_handler_rejected(1) [OF this, of NoFault st] assms show ?thesis
    by (simp add: submit_def)
next
  case (Some p)
  obtain sc k where p: "p = (sc, k)" by (cases p)
  note key = Some [unfolded p]
  show ?thesis
  proof (cases "getSessionStmt st sc = None")
    case True
    from submit_handler_no_session [OF key this, of NoFault] assms show ?thesis
      by (simp add: submit_def)
  next
    case False
    show ?thesis
    proof (cases "hasSessionEdge st (req_sessionId req) sc k")
      case True
      from submit_handler_duplicate [OF key False this, of NoFault] assms show ?thesis
        by (simp add: submit_def)
    next
      case nodup: False
      from submit_recorded [OF key False nodup] obtain a b st' where
        s: "submit st req = (StatusOk (getGraph st' sc), st')"
        and e: "edges_table st' = upsert_rows sc a b k (edges_table st)"
        by auto
      from assms show ?thesis unfolding s by (simp add: e upsert_rows_unique)
    qed
  qed
qed

lemma serve_unique:
  "distinct (map (\<lambda>r. (session_code r, edge_key r)) (edges_table st)) \<Longrightarrow>
   distinct (map (\<lambda>r. (session_code r, edge_key r)) (edges_table (serve st reqs)))"
  by (induction reqs arbitrary: st) (simp_all add: submit_unique)

text \<open>The node Map of \<open>getGraph\<close> holds the end points by first appearance.\<close>

lemma first_appearance_filter:
  "first_appearance (filter P xs) = filter P (first_appearance xs)"
proof (induction xs rule: first_appearance.induct)
  case 1
  then show ?case by simp
next
  case (2 x xs)
  have c: "filter (\<lambda>y. y \<noteq> x) (filter P xs) = filter P (filter (\<lambda>y. y \<noteq> x) xs)"
    by (simp add: conj_commute)
  show ?case
  proof (cases "P x")
    case True
    with 2 c show ?thesis by simp
  next
    case False
    have "filter P (filter (\<lambda>y. y \<noteq> x) xs) = filter P xs"
      using False by (induction xs) auto
    with False 2 show ?thesis by simp
  qed
qed

lemma nodesMap_fold:
  "map node_id (foldl nodesMap_add m ids) =
   map node_id m @ first_appearance (filter (\<lambda>y. y \<notin> set (map node_id m)) ids)"
proof (induction ids arbitrary: m)
  case Nil
  then show ?case by simp
next
  case (Cons a ids)
  show ?case
  proof (cases "a \<in> set (map node_id m)")
    case True
    then have "nodesMap_add m a = m" by (simp add: nodesMap_add_def)
    with Cons True show ?thesis by simp
  next
    case False
    then have m': "nodesMap_add m a = m @ [\<lparr>node_id = a, node_label = a\<rparr>]"
      by (simp add: nodesMap_add_def)
    have f: "filter (\<lambda>y. y \<notin> set (map node_id (m @ [\<lparr>node_id = a, node_label = a\<rparr>]))) ids =
             filter (\<lambda>y. y \<noteq> a) (filter (\<lambda>y. y \<notin> set (map node_id m)) ids)"
      by (induction ids) auto
    have "map node_id (foldl nodesMap_add m (a # ids)) =
          map node_id (foldl nodesMap_add (m @ [\<lparr>node_id = a, node_label = a\<rparr>]) ids)"
      by (simp add: m')
    also have "\<dots> = map node_id (m @ [\<lparr>node_id = a, node_label = a\<rparr>]) @
        first_appearance (filter (\<lambda>y. y \<noteq> a) (filter (\<lambda>y. y \<notin> set (map node_id m)) ids))"
      unfolding Cons.IH f ..
    also have "\<dots> = map node_id m @
        first_appearance (filter (\<lambda>y. y \<notin> set (map node_id m)) (a # ids))"
      using False by simp
    finally show ?thesis .
  qed
qed

lemma nodesMap_labels:
  "\<forall>n \<in> set m. node_label n = node_id n \<Longrightarrow>
   \<forall>n \<in> set (foldl nodesMap_add m ids). node_label n = node_id n"
proof (induction ids arbitrary: m)
  case Nil
  then show ?case by simp
next
  case (Cons a ids)
  have "\<forall>n \<in> set (nodesMap_add m a). node_label n = node_id n"
    using Cons.prems by (auto simp: nodesMap_add_def)
  from Cons.IH [OF this] show ?case by simp
qed

lemma nodesMap_rows:
  "foldl (\<lambda>m r. nodesMap_add (nodesMap_add m (trim (concept_a r))) (trim (concept_b r))) m rows =
   foldl nodesMap_add m (row_endpoints rows)"
  by (induction rows arbitrary: m) (simp_all add: row_endpoints_def)

text \<open>
  C10. The snapshot of a scope lists the scope's stored rows, each once, by weight
  descending, then by the stored first concept ascending, and rows that tie on both by
  edge key ascending (the order in which the engine reads them). Its nodes are the end
  points in the order of their first appearance along that edge list, each labelled by
  its id. Under the UNIQUE(session_code, edge_key) constraint that order leaves no choice:
  two states holding the same rows of the scope, in whatever rowid order and whatever
  their other tables, give the same snapshot.
\<close>

theorem getGraph_deterministic_order:
  "sorted_wrt (\<lambda>r1 r2. weight r2 < weight r1
        \<or> (weight r1 = weight r2
            \<and> (concept_a r1 < concept_a r2
                \<or> (concept_a r1 = concept_a r2 \<and> edge_key r1 \<le> edge_key r2))))
      (listEdges st sc)
   \<and> mset (listEdges st sc) = mset (filter (\<lambda>r. session_code r = sc) (edges_table st))
   \<and> edges (getGraph st sc) =
       map (\<lambda>r. \<lparr>edge_from = trim (concept_a r), edge_to = trim (concept_b r),
                  edge_weight = weight r\<rparr>) (listEdges st sc)
   \<and> map node_id (nodes (getGraph st sc)) = first_appearance (row_endpoints (listEdges st sc))
   \<and> map node_label (nodes (getGraph st sc)) = map node_id (nodes (getGraph st sc))
   \<and> (distinct (map (\<lambda>r. (session_code r, edge_key r)) (edges_table st))
        \<and> mset (filter (\<lambda>r. session_code r = sc) (edges_table st')) =
          mset (filter (\<lambda>r. session_code r = sc) (edges_table st))
      \<longrightarrow> getGraph st' sc = getGraph st sc)"
proof -
  have "sorted_wrt tie_order (listEdges st sc)" by (rule listEdges_tie_order)
  then have 1: "sorted_wrt (\<lambda>r1 r2. weight r2 < weight r1
        \<or> (weight r1 = weight r2
            \<and> (concept_a r1 < concept_a r2
                \<or> (concept_a r1 = concept_a r2 \<and> edge_key r1 \<le> edge_key r2))))
      (listEdges st sc)"
    unfolding tie_order_def .
  have 2: "mset (listEdges st sc) = mset (filter (\<lambda>r. session_code r = sc) (edges_table st))"
    by (rule listEdges_mset)
  have 3: "edges (getGraph st sc) =
       map (\<lambda>r. \<lparr>edge_from = trim (concept_a r), edge_to = trim (concept_b r),
                  edge_weight = weight r\<rparr>) (listEdges st sc)"
    by (simp add: getGraph_def Let_def)
  have n: "nodes (getGraph st sc) = foldl nodesMap_add [] (row_endpoints (listEdges st sc))"
    by (simp add: getGraph_def Let_def nodesMap_rows)
  have 4: "map node_id (nodes (getGraph st sc)) = first_appearance (row_endpoints (listEdges st sc))"
    unfolding n nodesMap_fold by simp
  have "\<forall>x \<in> set (nodes (getGraph st sc)). node_label x = node_id x"
    unfolding n by (rule nodesMap_labels) simp
  then have 5: "map node_label (nodes (getGraph st sc)) = map node_id (nodes (getGraph st sc))"
    by simp
  have 6: "getGraph st' sc = getGraph st sc"
    if "distinct (map (\<lambda>r. (session_code r, edge_key r)) (edges_table st))"
      and "mset (filter (\<lambda>r. session_code r = sc) (edges_table st')) =
           mset (filter (\<lambda>r. session_code r = sc) (edges_table st))"
  proof -
    from that have "listEdges st' sc = listEdges st sc" by (rule listEdges_stored_set)
    then show ?thesis by (simp add: getGraph_def)
  qed
  from 1 2 3 4 5 6 show ?thesis by blast
qed

text \<open>
  The snapshot after \<open>order_run\<close>: the row of weight 2, stored last, comes first; (b, c)
  comes before the rows of z; these two tie and come in key order, a::z before b::z, the
  reverse of their rowid order. The table read backwards gives the same snapshot.
\<close>

theorem getGraph_deterministic_order_witness:
  "map edge_key (edges_table (serve example_db order_run)) =
     [''b::c'', ''b::z'', ''a::z'', ''x::y'']
   \<and> edges (getGraph (serve example_db order_run) ''room'') =
       [\<lparr>edge_from = ''y'', edge_to = ''x'', edge_weight = 2\<rparr>,
        \<lparr>edge_from = ''b'', edge_to = ''c'', edge_weight = 1\<rparr>,
        \<lparr>edge_from = ''z'', edge_to = ''a'', edge_weight = 1\<rparr>,
        \<lparr>edge_from = ''z'', edge_to = ''b'', edge_weight = 1\<rparr>]
   \<and> map node_id (nodes (getGraph (serve example_db order_run) ''room'')) =
       [''y'', ''x'', ''b'', ''c'', ''z'', ''a'']
   \<and> getGraph ((serve example_db order_run)
                 \<lparr>edges_table := rev (edges_table (serve example_db order_run))\<rparr>) ''room'' =
     getGraph (serve example_db order_run) ''room''"
proof -
  let ?st = "serve example_db order_run"
  let ?st' = "?st\<lparr>edges_table := rev (edges_table ?st)\<rparr>"
  have t: "map edge_key (edges_table ?st) = [''b::c'', ''b::z'', ''a::z'', ''x::y'']"
    by code_simp
  have w: "map (\<lambda>r. \<lparr>edge_from = trim (concept_a r), edge_to = trim (concept_b r),
                  edge_weight = weight r\<rparr>) (listEdges ?st ''room'')
       = [\<lparr>edge_from = ''y'', edge_to = ''x'', edge_weight = 2\<rparr>,
          \<lparr>edge_from = ''b'', edge_to = ''c'', edge_weight = 1\<rparr>,
          \<lparr>edge_from = ''z'', edge_to = ''a'', edge_weight = 1\<rparr>,
          \<lparr>edge_from = ''z'', edge_to = ''b'', edge_weight = 1\<rparr>]" by code_simp
  have v: "first_appearance (row_endpoints (listEdges ?st ''room''))
      = [''y'', ''x'', ''b'', ''c'', ''z'', ''a'']" by code_simp
  have u: "distinct (map (\<lambda>r. (session_code r, edge_key r)) (edges_table ?st))"
    by code_simp
  have m: "mset (filter (\<lambda>r. session_code r = ''room'') (edges_table ?st')) =
           mset (filter (\<lambda>r. session_code r = ''room'') (edges_table ?st))"
    by (simp add: rev_filter [symmetric])
  from getGraph_deterministic_order [of ?st "''room''" ?st'] t u m show ?thesis
    unfolding v w by simp
qed

text \<open>
  The ORDER BY alone fixes the result when no two rows of the scope tie on weight and
  stored first concept: every arrangement of the scope's rows that is sorted by weight
  descending and first concept ascending is the list \<open>listEdges\<close> returns, whatever the
  engine does with ties.
\<close>

theorem listEdges_whatever_the_engine:
  assumes "mset rows = mset (filter (\<lambda>r. session_code r = sc) (edges_table st))"
    and "sorted_wrt (\<lambda>r1 r2. weight r2 < weight r1
            \<or> (weight r1 = weight r2 \<and> concept_a r1 \<le> concept_a r2)) rows"
    and "\<forall>r1 \<in> set rows. \<forall>r2 \<in> set rows.
            weight r1 = weight r2 \<and> concept_a r1 = concept_a r2 \<longrightarrow> r1 = r2"
  shows "rows = listEdges st sc"
proof (rule sorted_wrt_unique)
  show "sorted_wrt order_by rows" using assms(2) unfolding order_by_def .
  show "sorted_wrt order_by (listEdges st sc)"
    unfolding listEdges_def by (rule sorted_foldr_insert_row)
  show "mset rows = mset (listEdges st sc)" using assms(1) by (simp add: listEdges_mset)
  fix x y
  assume "x \<in> set rows" and "y \<in> set rows" and "order_by x y" and "order_by y x"
  moreover from \<open>order_by x y\<close> \<open>order_by y x\<close>
  have "weight x = weight y \<and> concept_a x = concept_a y"
    unfolding order_by_def by (metis less_asym less_irrefl order_antisym)
  ultimately show "x = y" using assms(3) by blast
qed

text \<open>The theorem at \<open>swapped_run\<close>, whose table holds the row of weight 1 first.\<close>

theorem listEdges_whatever_the_engine_witness:
  "map edge_key (edges_table (serve example_db swapped_run)) = [''a::b'', ''cooperation::trust'']
   \<and> listEdges (serve example_db swapped_run) ''room'' =
     [\<lparr>session_code = ''room'', concept_a = ''trust'', concept_b = ''cooperation'',
       edge_key = ''cooperation::trust'', weight = 2\<rparr>,
      \<lparr>session_code = ''room'', concept_a = ''b'', concept_b = ''a'',
       edge_key = ''a::b'', weight = 1\<rparr>]"
proof -
  let ?rows = "[\<lparr>session_code = ''room'', concept_a = ''trust'', concept_b = ''cooperation'',
       edge_key = ''cooperation::trust'', weight = 2\<rparr>,
      \<lparr>session_code = ''room'', concept_a = ''b'', concept_b = ''a'',
       edge_key = ''a::b'', weight = 1::nat\<rparr>]"
  have e: "edges_table (serve example_db swapped_run) = rev ?rows" by code_simp
  have k: "map edge_key (edges_table (serve example_db swapped_run)) =
      [''a::b'', ''cooperation::trust'']" unfolding e by simp
  have 1: "mset ?rows = mset (filter (\<lambda>r. session_code r = ''room'')
                                  (edges_table (serve example_db swapped_run)))"
    unfolding e by simp
  have 2: "sorted_wrt (\<lambda>r1 r2. weight r2 < weight r1
            \<or> (weight r1 = weight r2 \<and> concept_a r1 \<le> concept_a r2)) ?rows"
    by simp
  have 3: "\<forall>r1 \<in> set ?rows. \<forall>r2 \<in> set ?rows.
            weight r1 = weight r2 \<and> concept_a r1 = concept_a r2 \<longrightarrow> r1 = r2"
    by simp
  from listEdges_whatever_the_engine [OF 1 2 3] k show ?thesis by simp
qed


section \<open>Analytics: the hub\<close>

lemma foldl_keys_add:
  "foldl keys_add ks xs = ks @ first_appearance (filter (\<lambda>y. y \<notin> set ks) xs)"
proof (induction xs arbitrary: ks)
  case Nil
  then show ?case by simp
next
  case (Cons a xs)
  show ?case
  proof (cases "a \<in> set ks")
    case True
    then have "keys_add ks a = ks" by (simp add: keys_add_def)
    with True show ?thesis by (simp add: Cons.IH)
  next
    case False
    have f: "filter (\<lambda>y. y \<notin> set (ks @ [a])) xs =
             filter (\<lambda>y. y \<noteq> a) (filter (\<lambda>y. y \<notin> set ks) xs)"
      by (induction xs) auto
    have "foldl keys_add ks (a # xs) = foldl keys_add (ks @ [a]) xs"
      using False by (simp add: keys_add_def)
    also have "\<dots> = (ks @ [a]) @
        first_appearance (filter (\<lambda>y. y \<noteq> a) (filter (\<lambda>y. y \<notin> set ks) xs))"
      unfolding Cons.IH f ..
    also have "\<dots> = ks @ first_appearance (filter (\<lambda>y. y \<notin> set ks) (a # xs))"
      using False by simp
    finally show ?thesis .
  qed
qed

lemma map_fst_map_set: "map fst (map_set k v m) = keys_add (map fst m) k"
  by (induction m) (auto simp: keys_add_def)

lemma map_of_map_set: "map_of (map_set k v m) = (map_of m)(k \<mapsto> v)"
  by (induction m) auto

lemma map_fst_ensure: "map fst (ensure k v m) = keys_add (map fst m) k"
  by (auto simp: ensure_def map_fst_map_set keys_add_def map_has_keys)

lemma map_fst_bump: "map fst (bump k m) = map fst m"
proof (cases "map_of m k")
  case None
  then show ?thesis by (simp add: bump_def)
next
  case (Some d)
  then have "k \<in> fst ` set m" by (metis map_of_eq_None_iff option.distinct(1))
  with Some show ?thesis by (simp add: bump_def map_fst_map_set keys_add_def)
qed

lemma keys_init_nodes:
  "map fst (fst (foldl init_node da ns)) = foldl keys_add (map fst (fst da)) (map node_id ns)"
  by (induction ns arbitrary: da) (simp_all add: init_node_def map_fst_map_set)

lemma keys_add_edges:
  "map fst (fst (foldl add_edge da es)) = foldl keys_add (map fst (fst da)) (edge_endpoints es)"
  by (induction es arbitrary: da)
     (simp_all add: add_edge_def Let_def edge_endpoints_def map_fst_bump map_fst_ensure)

lemma degrees_keys:
  "map fst (degrees (buildMetrics g)) =
     first_appearance (map node_id (nodes g) @ edge_endpoints (edges g))"
proof -
  have "map fst (degrees (buildMetrics g)) =
        foldl keys_add (foldl keys_add [] (map node_id (nodes g))) (edge_endpoints (edges g))"
    by (simp add: buildMetrics_def Let_def keys_add_edges keys_init_nodes)
  also have "\<dots> = foldl keys_add [] (map node_id (nodes g) @ edge_endpoints (edges g))"
    by (simp only: foldl_append)
  also have "\<dots> = first_appearance (map node_id (nodes g) @ edge_endpoints (edges g))"
    unfolding foldl_keys_add by simp
  finally show ?thesis .
qed

lemma pick_hub_snoc: "pick_hub (xs @ [x]) = hub_step (pick_hub xs) x"
  by (simp add: pick_hub_def)

lemma pick_hub_spec:
  "(xs = [] \<and> pick_hub xs = (None, - 1)) \<or>
   (\<exists>i < length xs. pick_hub xs = (Some (fst (xs ! i)), int (snd (xs ! i)))
       \<and> (\<forall>j < length xs. snd (xs ! j) \<le> snd (xs ! i))
       \<and> (\<forall>j < i. snd (xs ! j) < snd (xs ! i)))"
proof (induction xs rule: rev_induct)
  case Nil
  then show ?case by (simp add: pick_hub_def)
next
  case (snoc x xs)
  show ?case
  proof (cases "xs = []")
    case True
    then have "pick_hub (xs @ [x]) = (Some (fst x), int (snd x))"
      by (simp add: pick_hub_def hub_step_def)
    with True show ?thesis by simp
  next
    case False
    with snoc obtain i where i: "i < length xs"
      and p: "pick_hub xs = (Some (fst (xs ! i)), int (snd (xs ! i)))"
      and mx: "\<forall>j < length xs. snd (xs ! j) \<le> snd (xs ! i)"
      and fs: "\<forall>j < i. snd (xs ! j) < snd (xs ! i)"
      by blast
    show ?thesis
    proof (cases "snd x > snd (xs ! i)")
      case True
      then have q: "pick_hub (xs @ [x]) = (Some (fst x), int (snd x))"
        by (simp add: pick_hub_snoc p hub_step_def)
      have a: "\<forall>j < length (xs @ [x]). snd ((xs @ [x]) ! j) \<le> snd x"
      proof (intro allI impI)
        fix j assume "j < length (xs @ [x])"
        then consider "j < length xs" | "j = length xs" by fastforce
        then show "snd ((xs @ [x]) ! j) \<le> snd x"
        proof cases
          case 1
          then show ?thesis using mx True by (simp add: nth_append) (meson le_trans less_imp_le)
        next
          case 2
          then show ?thesis by simp
        qed
      qed
      have b: "\<forall>j < length xs. snd ((xs @ [x]) ! j) < snd x"
        using mx True by (simp add: nth_append) (meson le_less_trans)
      have "length xs < length (xs @ [x])
          \<and> pick_hub (xs @ [x]) = (Some (fst ((xs @ [x]) ! length xs)), int (snd ((xs @ [x]) ! length xs)))
          \<and> (\<forall>j < length (xs @ [x]). snd ((xs @ [x]) ! j) \<le> snd ((xs @ [x]) ! length xs))
          \<and> (\<forall>j < length xs. snd ((xs @ [x]) ! j) < snd ((xs @ [x]) ! length xs))"
        using q a b by simp
      then show ?thesis by blast
    next
      case False
      then have q: "pick_hub (xs @ [x]) = (Some (fst (xs ! i)), int (snd (xs ! i)))"
        by (simp add: pick_hub_snoc p hub_step_def)
      have e: "(xs @ [x]) ! i = xs ! i" using i by (simp add: nth_append)
      have a: "\<forall>j < length (xs @ [x]). snd ((xs @ [x]) ! j) \<le> snd (xs ! i)"
      proof (intro allI impI)
        fix j assume "j < length (xs @ [x])"
        then consider "j < length xs" | "j = length xs" by fastforce
        then show "snd ((xs @ [x]) ! j) \<le> snd (xs ! i)"
        proof cases
          case 1
          then show ?thesis using mx by (simp add: nth_append)
        next
          case 2
          then show ?thesis using False by simp
        qed
      qed
      have b: "\<forall>j < i. snd ((xs @ [x]) ! j) < snd (xs ! i)"
        using fs i by (simp add: nth_append)
      have "i < length (xs @ [x])
          \<and> pick_hub (xs @ [x]) = (Some (fst ((xs @ [x]) ! i)), int (snd ((xs @ [x]) ! i)))
          \<and> (\<forall>j < length (xs @ [x]). snd ((xs @ [x]) ! j) \<le> snd ((xs @ [x]) ! i))
          \<and> (\<forall>j < i. snd ((xs @ [x]) ! j) < snd ((xs @ [x]) ! i))"
        using q a b i unfolding e by simp
      then show ?thesis by blast
    qed
  qed
qed

lemma first_appearance_Nil_iff: "first_appearance xs = [] \<longleftrightarrow> xs = []"
  by (cases xs) simp_all

text \<open>
  C3 (as the code has it). For every non-empty snapshot there is a hub; it is the first
  entry of the degree Map, in the Map's insertion order, whose degree is at least every
  other degree. The insertion order is the snapshot's node list followed by the end
  points of its edges, each at its first appearance. So the hub has maximum degree, and
  among the nodes tied for it the one that comes first in the snapshot is chosen.
\<close>

theorem hub_is_first_of_maximum_degree:
  assumes "nodes g \<noteq> [] \<or> edges g \<noteq> []"
  shows "\<exists>h dh. hubId (buildMetrics g) = Some h
           \<and> find (\<lambda>kv. \<forall>kv' \<in> set (degrees (buildMetrics g)). snd kv' \<le> snd kv)
                  (degrees (buildMetrics g)) = Some (h, dh)
           \<and> map fst (degrees (buildMetrics g)) =
               first_appearance (map node_id (nodes g) @ edge_endpoints (edges g))"
proof -
  let ?deg = "degrees (buildMetrics g)"
  have keys: "map fst ?deg = first_appearance (map node_id (nodes g) @ edge_endpoints (edges g))"
    by (rule degrees_keys)
  have "map node_id (nodes g) @ edge_endpoints (edges g) \<noteq> []"
    using assms by (cases "edges g") (auto simp: edge_endpoints_def)
  then have "map fst ?deg \<noteq> []"
    unfolding keys by (simp add: first_appearance_Nil_iff)
  then have ne: "?deg \<noteq> []" by auto
  have hub: "hubId (buildMetrics g) = fst (pick_hub ?deg)"
    by (simp add: buildMetrics_def Let_def)
  from pick_hub_spec [of ?deg] ne obtain i where i: "i < length ?deg"
    and p: "pick_hub ?deg = (Some (fst (?deg ! i)), int (snd (?deg ! i)))"
    and mx: "\<forall>j < length ?deg. snd (?deg ! j) \<le> snd (?deg ! i)"
    and fs: "\<forall>j < i. snd (?deg ! j) < snd (?deg ! i)"
    by blast
  let ?P = "\<lambda>kv. \<forall>kv' \<in> set ?deg. snd kv' \<le> snd kv"
  have Pi: "?P (?deg ! i)"
  proof
    fix kv' assume "kv' \<in> set ?deg"
    then obtain j where "j < length ?deg" and "?deg ! j = kv'"
      by (auto simp: in_set_conv_nth)
    with mx show "snd kv' \<le> snd (?deg ! i)" by blast
  qed
  have nP: "\<forall>j < i. \<not> ?P (?deg ! j)"
  proof (intro allI impI)
    fix j assume "j < i"
    then have "snd (?deg ! j) < snd (?deg ! i)" using fs by blast
    moreover have "?deg ! i \<in> set ?deg" using i by simp
    ultimately show "\<not> ?P (?deg ! j)" by (meson not_less)
  qed
  have "find ?P ?deg = Some (?deg ! i)"
    unfolding find_Some_iff using i Pi nP by blast
  then have "find ?P ?deg = Some (fst (?deg ! i), snd (?deg ! i))" by simp
  moreover have "hubId (buildMetrics g) = Some (fst (?deg ! i))"
    by (simp add: hub p)
  ultimately show ?thesis using keys by blast
qed

text \<open>
  The lexicographic tie-break fails on the snapshot of one submission ("b", "a"): both
  nodes have degree 1, "a" sorts first, and the hub is "b".
\<close>

theorem hub_tie_break_counterexample:
  "tie_graph = \<lparr>nodes = [\<lparr>node_id = ''b'', node_label = ''b''\<rparr>, \<lparr>node_id = ''a'', node_label = ''a''\<rparr>],
                edges = [\<lparr>edge_from = ''b'', edge_to = ''a'', edge_weight = 1\<rparr>]\<rparr>
   \<and> hubId (buildMetrics tie_graph) = Some ''b''
   \<and> degrees (buildMetrics tie_graph) = [(''b'', 1), (''a'', 1)]
   \<and> ''a'' < ''b''"
  by code_simp

theorem hub_is_first_of_maximum_degree_witness:
  "hubId (buildMetrics tie_graph) = Some ''b''
   \<and> find (\<lambda>kv. \<forall>kv' \<in> set (degrees (buildMetrics tie_graph)). snd kv' \<le> snd kv)
        (degrees (buildMetrics tie_graph)) = Some (''b'', 1)
   \<and> map fst (degrees (buildMetrics tie_graph)) = [''b'', ''a'']"
proof -
  have h: "nodes tie_graph \<noteq> [] \<or> edges tie_graph \<noteq> []" by code_simp
  have v: "hubId (buildMetrics tie_graph) = Some ''b''" by code_simp
  have k: "first_appearance (map node_id (nodes tie_graph) @ edge_endpoints (edges tie_graph))
             = [''b'', ''a'']" by code_simp
  have d: "map_of (degrees (buildMetrics tie_graph)) ''b'' = Some 1" by code_simp
  from hub_is_first_of_maximum_degree [OF h] obtain h' dh where
    1: "hubId (buildMetrics tie_graph) = Some h'" and
    2: "find (\<lambda>kv. \<forall>kv' \<in> set (degrees (buildMetrics tie_graph)). snd kv' \<le> snd kv)
        (degrees (buildMetrics tie_graph)) = Some (h', dh)" and
    3: "map fst (degrees (buildMetrics tie_graph)) =
          first_appearance (map node_id (nodes tie_graph) @ edge_endpoints (edges tie_graph))"
    by blast
  from 1 v have h': "h' = ''b''" by simp
  from 2 have "(h', dh) \<in> set (degrees (buildMetrics tie_graph))"
    by (auto simp: find_Some_iff)
  moreover have "distinct (map fst (degrees (buildMetrics tie_graph)))"
    unfolding 3 k by simp
  ultimately have "map_of (degrees (buildMetrics tie_graph)) h' = Some dh"
    by simp
  with d h' have "dh = 1" by simp
  with 1 2 3 h' k show ?thesis by simp
qed

section \<open>Analytics: breadth-first levels\<close>

lemma queue_inv_init: "queue_inv E h [h] [h \<mapsto> 0]"
  unfolding queue_inv_def
  by (auto intro: walk_here split: if_splits)

lemma queue_inv_visit_new:
  assumes inv: "queue_inv E h (c # q) D" and dc: "D c = Some dc" and new: "D n = None"
    and e: "E c n"
  shows "queue_inv E h (c # q @ [n]) (D(n \<mapsto> dc + 1))"
proof -
  let ?D = "D(n \<mapsto> dc + 1)"
  from inv have i1: "D h = Some 0"
    and i2: "\<And>v k. D v = Some k \<Longrightarrow> walk E h k v"
    and i3: "set (c # q) \<subseteq> dom D"
    and i4: "sorted_wrt (\<lambda>x y. \<forall>dx dy. D x = Some dx \<longrightarrow> D y = Some dy \<longrightarrow> dx \<le> dy) (c # q)"
    and i5: "\<And>v k. D v = Some k \<Longrightarrow> k \<le> dc + 1"
    and i6: "\<And>v w. v \<in> dom D \<Longrightarrow> v \<notin> set (c # q) \<Longrightarrow> E v w \<Longrightarrow> w \<in> dom D"
    and i7: "\<And>v w dv dw. D v = Some dv \<Longrightarrow> D w = Some dw \<Longrightarrow> E v w \<Longrightarrow> dw \<le> dv + 1"
    and i8: "\<And>v k. D v = Some (Suc k) \<Longrightarrow> \<exists>p. D p = Some k"
    unfolding queue_inv_def using dc by blast+
  have old: "\<And>v. v \<noteq> n \<Longrightarrow> ?D v = D v" by simp
  have nq: "n \<notin> set (c # q)" using i3 new by auto
  have hn: "h \<noteq> n" using i1 new by auto
  have j1: "?D h = Some 0" using i1 hn by simp
  have j2: "\<forall>v k. ?D v = Some k \<longrightarrow> walk E h k v"
  proof (intro allI impI)
    fix v k assume a: "?D v = Some k"
    show "walk E h k v"
    proof (cases "v = n")
      case True
      with a have "k = Suc dc" by simp
      moreover have "walk E h (Suc dc) n" using i2 [OF dc] e by (rule walk_step)
      ultimately show ?thesis using True by simp
    next
      case False
      with a i2 show ?thesis by simp
    qed
  qed
  have j3: "set (c # q @ [n]) \<subseteq> dom ?D" using i3 by auto
  have head_min: "\<And>x dx. x \<in> set (c # q) \<Longrightarrow> D x = Some dx \<Longrightarrow> dc \<le> dx"
  proof -
    fix x dx assume x: "x \<in> set (c # q)" and dx: "D x = Some dx"
    show "dc \<le> dx"
    proof (cases "x = c")
      case True
      with dc dx show ?thesis by simp
    next
      case False
      with x have "x \<in> set q" by simp
      with i4 dc dx show ?thesis by auto
    qed
  qed
  have j4: "sorted_wrt (\<lambda>x y. \<forall>dx dy. ?D x = Some dx \<longrightarrow> ?D y = Some dy \<longrightarrow> dx \<le> dy) (c # q @ [n])"
  proof -
    have a: "sorted_wrt (\<lambda>x y. \<forall>dx dy. ?D x = Some dx \<longrightarrow> ?D y = Some dy \<longrightarrow> dx \<le> dy) (c # q)"
      using i4 nq by (elim sorted_wrt_mono_rel [rotated]) auto
    have b: "\<forall>x \<in> set (c # q). \<forall>dx dy. ?D x = Some dx \<longrightarrow> ?D n = Some dy \<longrightarrow> dx \<le> dy"
    proof (intro ballI allI impI)
      fix x dx dy assume x: "x \<in> set (c # q)" and dx: "?D x = Some dx" and dy: "?D n = Some dy"
      from x nq have "x \<noteq> n" by auto
      with dx have "D x = Some dx" by simp
      then have "dx \<le> dc + 1" by (rule i5)
      with dy show "dx \<le> dy" by simp
    qed
    have "sorted_wrt (\<lambda>x y. \<forall>dx dy. ?D x = Some dx \<longrightarrow> ?D y = Some dy \<longrightarrow> dx \<le> dy) ((c # q) @ [n])"
      unfolding sorted_wrt_append using a b by simp
    then show ?thesis by simp
  qed
  have j5: "\<forall>c' q' dc' v k. c # q @ [n] = c' # q' \<longrightarrow> ?D c' = Some dc' \<longrightarrow> ?D v = Some k \<longrightarrow> k \<le> dc' + 1"
  proof (intro allI impI)
    fix c' q' dc' v k
    assume a: "c # q @ [n] = c' # q'" and b: "?D c' = Some dc'" and v: "?D v = Some k"
    from a have "c' = c" by simp
    moreover have "c \<noteq> n" using nq by auto
    ultimately have "dc' = dc" using b dc by simp
    show "k \<le> dc' + 1"
    proof (cases "v = n")
      case True
      with v \<open>dc' = dc\<close> show ?thesis by simp
    next
      case False
      with v have "D v = Some k" by simp
      then have "k \<le> dc + 1" by (rule i5)
      with \<open>dc' = dc\<close> show ?thesis by simp
    qed
  qed
  have j6: "\<forall>v w. v \<in> dom ?D \<longrightarrow> v \<notin> set (c # q @ [n]) \<longrightarrow> E v w \<longrightarrow> w \<in> dom ?D"
  proof (intro allI impI)
    fix v w assume a: "v \<in> dom ?D" and b: "v \<notin> set (c # q @ [n])" and c: "E v w"
    from b have "v \<noteq> n" and "v \<notin> set (c # q)" by auto
    with a have "v \<in> dom D" by auto
    from i6 [OF this \<open>v \<notin> set (c # q)\<close> c] show "w \<in> dom ?D" by auto
  qed
  have j7: "\<forall>v w dv dw. ?D v = Some dv \<longrightarrow> ?D w = Some dw \<longrightarrow> E v w \<longrightarrow> dw \<le> dv + 1"
  proof (intro allI impI)
    fix v w dv dw assume a: "?D v = Some dv" and b: "?D w = Some dw" and c: "E v w"
    consider (oo) "v \<noteq> n" "w \<noteq> n" | (on) "v \<noteq> n" "w = n" | (no) "v = n" "w \<noteq> n" | (nn) "v = n" "w = n"
      by blast
    then show "dw \<le> dv + 1"
    proof cases
      case oo
      with a b have "D v = Some dv" "D w = Some dw" by simp_all
      then show ?thesis using c by (rule i7)
    next
      case on
      with a b have dv: "D v = Some dv" and dw: "dw = dc + 1" by simp_all
      have "v \<in> set (c # q)"
      proof (rule ccontr)
        assume "v \<notin> set (c # q)"
        moreover have "v \<in> dom D" using dv by auto
        ultimately have "w \<in> dom D" using c i6 by blast
        with on new show False by auto
      qed
      from head_min [OF this dv] dw show ?thesis by simp
    next
      case no
      with a b have "dv = dc + 1" and "D w = Some dw" by simp_all
      moreover from \<open>D w = Some dw\<close> have "dw \<le> dc + 1" by (rule i5)
      ultimately show ?thesis by simp
    next
      case nn
      with a b show ?thesis by simp
    qed
  qed
  have j8: "\<forall>v k. ?D v = Some (Suc k) \<longrightarrow> (\<exists>p. ?D p = Some k)"
  proof (intro allI impI)
    fix v k assume a: "?D v = Some (Suc k)"
    show "\<exists>p. ?D p = Some k"
    proof (cases "v = n")
      case True
      with a have "k = dc" by simp
      moreover have "c \<noteq> n" using nq by auto
      ultimately have "?D c = Some k" using dc by simp
      then show ?thesis ..
    next
      case False
      with a have "D v = Some (Suc k)" by simp
      from i8 [OF this] obtain p where p: "D p = Some k" ..
      with new have "p \<noteq> n" by auto
      with p have "?D p = Some k" by simp
      then show ?thesis ..
    qed
  qed
  show ?thesis
    unfolding queue_inv_def using j1 j2 j3 j4 j5 j6 j7 j8 by blast
qed

lemma queue_inv_pop:
  assumes inv: "queue_inv E h (c # q) D" and closed: "\<And>w. E c w \<Longrightarrow> w \<in> dom D"
  shows "queue_inv E h q D"
proof -
  from inv have i3: "set (c # q) \<subseteq> dom D"
    and i4: "sorted_wrt (\<lambda>x y. \<forall>dx dy. D x = Some dx \<longrightarrow> D y = Some dy \<longrightarrow> dx \<le> dy) (c # q)"
    and i5: "\<And>dc v k. D c = Some dc \<Longrightarrow> D v = Some k \<Longrightarrow> k \<le> dc + 1"
    and i6: "\<And>v w. v \<in> dom D \<Longrightarrow> v \<notin> set (c # q) \<Longrightarrow> E v w \<Longrightarrow> w \<in> dom D"
    unfolding queue_inv_def by blast+
  from i3 obtain dc where dc: "D c = Some dc" by auto
  have j3: "set q \<subseteq> dom D" using i3 by simp
  have j4: "sorted_wrt (\<lambda>x y. \<forall>dx dy. D x = Some dx \<longrightarrow> D y = Some dy \<longrightarrow> dx \<le> dy) q"
    using i4 by simp
  have j5: "\<forall>c' q' dc' v k. q = c' # q' \<longrightarrow> D c' = Some dc' \<longrightarrow> D v = Some k \<longrightarrow> k \<le> dc' + 1"
  proof (intro allI impI)
    fix c' q' dc' v k assume a: "q = c' # q'" and b: "D c' = Some dc'" and v: "D v = Some k"
    from i4 a dc b have "dc \<le> dc'" by auto
    moreover from i5 [OF dc v] have "k \<le> dc + 1" .
    ultimately show "k \<le> dc' + 1" by simp
  qed
  have j6: "\<forall>v w. v \<in> dom D \<longrightarrow> v \<notin> set q \<longrightarrow> E v w \<longrightarrow> w \<in> dom D"
  proof (intro allI impI)
    fix v w assume a: "v \<in> dom D" and b: "v \<notin> set q" and e: "E v w"
    show "w \<in> dom D"
    proof (cases "v = c")
      case True
      with e closed show ?thesis by simp
    next
      case False
      with b have "v \<notin> set (c # q)" by simp
      from i6 [OF a this e] show ?thesis .
    qed
  qed
  from inv j3 j4 j5 j6 show ?thesis
    unfolding queue_inv_def by blast
qed

lemma distinct_map_set: "distinct (map fst m) \<Longrightarrow> distinct (map fst (map_set k v m))"
  by (simp add: map_fst_map_set keys_add_def)

lemma dom_map_of_keys: "dom (map_of m) = fst ` set m"
  by (rule dom_map_of_conv_image_fst)

lemma visit_inv:
  assumes inv: "bfs_inv adj h (c # q) ds" and e: "edge_of adj c n"
  shows "bfs_inv adj h (c # fst (visit c (q, ds) n)) (snd (visit c (q, ds) n))
       \<and> n \<in> fst ` set (snd (visit c (q, ds) n))
       \<and> fst ` set ds \<subseteq> fst ` set (snd (visit c (q, ds) n))"
proof (cases "map_has n ds")
  case True
  then have "visit c (q, ds) n = (q, ds)" by (simp add: visit_def)
  with inv True show ?thesis by (simp add: map_has_keys)
next
  case False
  from inv have d: "distinct (map fst ds)"
    and qi: "queue_inv (edge_of adj) h (c # q) (map_of ds)"
    unfolding bfs_inv_def by blast+
  from qi have "c \<in> dom (map_of ds)" unfolding queue_inv_def by simp
  then obtain dc where dc: "map_of ds c = Some dc" by auto
  from False have new: "map_of ds n = None" by (simp add: map_has_def)
  have v: "visit c (q, ds) n = (q @ [n], map_set n (dc + 1) ds)"
    using False dc by (simp add: visit_def)
  have q': "queue_inv (edge_of adj) h (c # q @ [n]) (map_of (map_set n (dc + 1) ds))"
    unfolding map_of_map_set by (rule queue_inv_visit_new [OF qi dc new e])
  have "bfs_inv adj h (c # q @ [n]) (map_set n (dc + 1) ds)"
    unfolding bfs_inv_def using distinct_map_set [OF d] q' by blast
  then show ?thesis unfolding v by (auto simp: keys_map_set)
qed

lemma visit_current_present: "bfs_inv adj h (c # q) ds \<Longrightarrow> map_has c ds"
  unfolding bfs_inv_def queue_inv_def map_has_def by auto

lemma foldl_visit_inv:
  assumes "bfs_inv adj h (c # q) ds" and "\<forall>n \<in> set ns. edge_of adj c n"
  shows "bfs_inv adj h (c # fst (foldl (visit c) (q, ds) ns)) (snd (foldl (visit c) (q, ds) ns))
       \<and> set ns \<subseteq> fst ` set (snd (foldl (visit c) (q, ds) ns))
       \<and> fst ` set ds \<subseteq> fst ` set (snd (foldl (visit c) (q, ds) ns))"
  using assms
proof (induction ns arbitrary: q ds)
  case Nil
  then show ?case by simp
next
  case (Cons n ns)
  let ?r = "visit c (q, ds) n"
  from Cons.prems have e: "edge_of adj c n" and es: "\<forall>n \<in> set ns. edge_of adj c n" by simp_all
  from visit_inv [OF Cons.prems(1) e]
  have 1: "bfs_inv adj h (c # fst ?r) (snd ?r)" and 2: "n \<in> fst ` set (snd ?r)"
    and 3: "fst ` set ds \<subseteq> fst ` set (snd ?r)" by blast+
  from Cons.IH [OF 1 es]
  have 4: "bfs_inv adj h (c # fst (foldl (visit c) (fst ?r, snd ?r) ns))
              (snd (foldl (visit c) (fst ?r, snd ?r) ns))"
    and 5: "set ns \<subseteq> fst ` set (snd (foldl (visit c) (fst ?r, snd ?r) ns))"
    and 6: "fst ` set (snd ?r) \<subseteq> fst ` set (snd (foldl (visit c) (fst ?r, snd ?r) ns))"
    by blast+
  have f: "foldl (visit c) (q, ds) (n # ns) = foldl (visit c) (fst ?r, snd ?r) ns" by simp
  have 7: "set (n # ns) \<subseteq> fst ` set (snd (foldl (visit c) (fst ?r, snd ?r) ns))"
    using 2 5 6 by (simp add: subset_iff)
  have 8: "fst ` set ds \<subseteq> fst ` set (snd (foldl (visit c) (fst ?r, snd ?r) ns))"
    using 3 6 by (rule subset_trans)
  show ?case unfolding f using 4 7 8 by blast
qed

lemma bfs_loop_inv: "bfs_inv adj h q ds \<Longrightarrow> bfs_inv adj h [] (bfs_loop adj q ds)"
proof (induction adj q ds rule: bfs_loop.induct)
  case (1 adj ds)
  then show ?case by simp
next
  case (2 adj current rest ds)
  let ?r = "foldl (visit current) (rest, ds) (neighbours adj current)"
  have "\<forall>n \<in> set (neighbours adj current). edge_of adj current n"
    by (simp add: edge_of_def)
  from foldl_visit_inv [OF "2.prems" this]
  have a: "bfs_inv adj h (current # fst ?r) (snd ?r)"
    and b: "set (neighbours adj current) \<subseteq> fst ` set (snd ?r)" by blast+
  have "queue_inv (edge_of adj) h (fst ?r) (map_of (snd ?r))"
  proof (rule queue_inv_pop)
    show "queue_inv (edge_of adj) h (current # fst ?r) (map_of (snd ?r))"
      using a unfolding bfs_inv_def by blast
  next
    fix w assume "edge_of adj current w"
    then show "w \<in> dom (map_of (snd ?r))"
      using b unfolding dom_map_of_keys edge_of_def by blast
  qed
  with a have "bfs_inv adj h (fst ?r) (snd ?r)" unfolding bfs_inv_def by blast
  from "2.IH" [OF this] show ?case by simp
qed

lemma bfs_inv_start: "bfs_inv adj h [h] (map_set h 0 [])"
  unfolding bfs_inv_def using queue_inv_init [of "edge_of adj" h]
  by (simp add: map_upd_Some_unfold fun_upd_def [symmetric])

lemma walk_closed:
  assumes "walk E h m v" and "D h = Some 0"
    and "\<And>v w. v \<in> dom D \<Longrightarrow> E v w \<Longrightarrow> w \<in> dom D"
    and "\<And>v w dv dw. D v = Some dv \<Longrightarrow> D w = Some dw \<Longrightarrow> E v w \<Longrightarrow> dw \<le> dv + 1"
  shows "\<exists>n. D v = Some n \<and> n \<le> m"
  using assms(1)
proof (induction rule: walk.induct)
  case walk_here
  then show ?case using assms(2) by simp
next
  case (walk_step n v w)
  then obtain k where k: "D v = Some k" "k \<le> n" by blast
  then have "v \<in> dom D" by auto
  from assms(3) [OF this walk_step.hyps(2)] obtain j where j: "D w = Some j" by auto
  from assms(4) [OF k(1) j walk_step.hyps(2)] k(2) have "j \<le> Suc n" by simp
  with j show ?case by blast
qed

lemma levels_inhabited:
  assumes "\<And>v n. D v = Some (Suc n) \<Longrightarrow> \<exists>p. D p = Some n" and "D v = Some n" and "k \<le> n"
  shows "\<exists>p. D p = Some k"
  using assms(2,3)
proof (induction n arbitrary: v)
  case 0
  then show ?case by auto
next
  case (Suc n)
  show ?case
  proof (cases "k = Suc n")
    case True
    with Suc.prems show ?thesis by auto
  next
    case False
    from assms(1) [OF Suc.prems(1)] obtain p where "D p = Some n" ..
    moreover from False Suc.prems(2) have "k \<le> n" by simp
    ultimately show ?thesis by (rule Suc.IH)
  qed
qed

lemma level_less_card:
  assumes inh: "\<And>v n. D v = Some (Suc n) \<Longrightarrow> \<exists>p. D p = Some n" and v: "D v = Some n"
    and fin: "finite (dom D)"
  shows "n < card (dom D)"
proof -
  have "\<forall>k \<in> {..n}. \<exists>p. D p = Some k"
    using levels_inhabited [OF inh v] by auto
  then obtain f where f: "\<And>k. k \<le> n \<Longrightarrow> D (f k) = Some k"
    by (metis atMost_iff)
  have "inj_on f {..n}"
  proof (rule inj_onI)
    fix x y assume "x \<in> {..n}" "y \<in> {..n}" "f x = f y"
    then show "x = y" using f by (metis atMost_iff option.inject)
  qed
  moreover have "f ` {..n} \<subseteq> dom D" using f by auto
  ultimately have "card {..n} \<le> card (dom D)"
    using fin by (metis card_image card_mono)
  then show ?thesis by simp
qed

lemma neighbours_map_set:
  "neighbours (map_set k s adj) u = (if u = k then s else neighbours adj u)"
  by (simp add: neighbours_def map_of_map_set)

lemma neighbours_ensure: "neighbours (ensure k [] adj) u = neighbours adj u"
  by (auto simp: ensure_def map_has_def neighbours_def map_of_map_set)

lemma map_has_ensure: "map_has k (ensure k v m)"
  by (simp add: ensure_def map_has_def map_of_map_set)

lemma map_has_ensure_other: "map_has k m \<Longrightarrow> map_has k (ensure k' v m)"
  by (simp add: ensure_def map_has_def map_of_map_set)

lemma map_has_adj_add: "map_has k m \<Longrightarrow> map_has k (adj_add a b m)"
  by (auto simp: adj_add_def map_has_def map_of_map_set split: option.splits)

lemma bump_present:
  "map_has k m \<Longrightarrow> \<exists>d. map_of m k = Some d \<and> bump k m = map_set k (d + 1) m"
  by (auto simp: map_has_def bump_def)

lemma adj_add_present:
  "map_has a adj \<Longrightarrow> \<exists>s. map_of adj a = Some s \<and> adj_add a b adj = map_set a (set_add b s) adj"
  by (auto simp: map_has_def adj_add_def)

lemma neighbours_adj_add:
  assumes "map_has a adj"
  shows "set (neighbours (adj_add a b adj) u) =
           set (neighbours adj u) \<union> (if u = a then {b} else {})"
proof -
  from assms obtain s where s: "map_of adj a = Some s" by (auto simp: map_has_def)
  then have "adj_add a b adj = map_set a (set_add b s) adj" by (simp add: adj_add_def)
  moreover have "neighbours adj a = s" using s by (simp add: neighbours_def)
  ultimately show ?thesis by (auto simp: neighbours_map_set set_add_def)
qed

lemma neighbours_add_edge:
  "set (neighbours (snd (add_edge da e)) u) =
     set (neighbours (snd da) u)
     \<union> (if u = edge_from e then {edge_to e} else {})
     \<union> (if u = edge_to e then {edge_from e} else {})"
proof -
  let ?a1 = "ensure (edge_to e) [] (ensure (edge_from e) [] (snd da))"
  let ?a2 = "adj_add (edge_from e) (edge_to e) ?a1"
  have h1: "map_has (edge_from e) ?a1"
    by (intro map_has_ensure_other map_has_ensure)
  have h2: "map_has (edge_to e) ?a2"
    by (intro map_has_adj_add map_has_ensure)
  have "snd (add_edge da e) = adj_add (edge_to e) (edge_from e) ?a2"
    by (simp add: add_edge_def Let_def)
  then show ?thesis
    by (simp add: neighbours_adj_add [OF h2] neighbours_adj_add [OF h1] neighbours_ensure)
qed

lemma neighbours_add_edges:
  "set (neighbours (snd (foldl add_edge da es)) u) =
     set (neighbours (snd da) u)
     \<union> {v. \<exists>e \<in> set es. (edge_from e = u \<and> edge_to e = v) \<or> (edge_from e = v \<and> edge_to e = u)}"
proof (induction es arbitrary: da)
  case Nil
  then show ?case by simp
next
  case (Cons e es)
  have "set (neighbours (snd (foldl add_edge da (e # es))) u) =
        set (neighbours (snd (add_edge da e)) u)
        \<union> {v. \<exists>e \<in> set es. (edge_from e = u \<and> edge_to e = v) \<or> (edge_from e = v \<and> edge_to e = u)}"
    using Cons.IH [of "add_edge da e"] by simp
  also have "\<dots> = set (neighbours (snd da) u)
        \<union> {v. \<exists>e' \<in> set (e # es). (edge_from e' = u \<and> edge_to e' = v) \<or> (edge_from e' = v \<and> edge_to e' = u)}"
    unfolding neighbours_add_edge by auto
  finally show ?case .
qed

lemma neighbours_init_nodes:
  "neighbours (snd da) u = [] \<Longrightarrow> neighbours (snd (foldl init_node da ns)) u = []"
  by (induction ns arbitrary: da) (simp_all add: init_node_def neighbours_map_set)

lemma edge_of_buildMetrics: "edge_of (adjacency (buildMetrics g)) = linked g"
proof (intro ext)
  fix u v
  have "neighbours (snd (foldl init_node ([], []) (nodes g))) u = []"
    by (rule neighbours_init_nodes) (simp add: neighbours_def)
  then show "edge_of (adjacency (buildMetrics g)) u v = linked g u v"
    by (simp add: edge_of_def buildMetrics_def Let_def neighbours_add_edges linked_def)
qed

lemma walk_target:
  "walk E h n v \<Longrightarrow> v = h \<or> (\<exists>u. E u v)"
  by (induction rule: walk.induct) auto

lemma linked_endpoint: "linked g u v \<Longrightarrow> v \<in> set (edge_endpoints (edges g))"
  by (auto simp: linked_def edge_endpoints_def)

lemma set_first_appearance: "set (first_appearance xs) = set xs"
  by (induction xs rule: first_appearance.induct) auto

lemma distinct_first_appearance: "distinct (first_appearance xs)"
  by (induction xs rule: first_appearance.induct) (auto simp: set_first_appearance)

lemma hub_in_keys:
  assumes "hubId (buildMetrics g) = Some h"
  shows "h \<in> set (map node_id (nodes g) @ edge_endpoints (edges g))"
proof -
  let ?deg = "degrees (buildMetrics g)"
  have hub: "hubId (buildMetrics g) = fst (pick_hub ?deg)"
    by (simp add: buildMetrics_def Let_def)
  from pick_hub_spec [of ?deg] assms hub obtain i where "i < length ?deg"
    and "pick_hub ?deg = (Some (fst (?deg ! i)), int (snd (?deg ! i)))"
    by auto
  with assms hub have "h = fst (?deg ! i)" by simp
  with \<open>i < length ?deg\<close> have "h \<in> set (map fst ?deg)" by (metis length_map nth_map nth_mem)
  then show ?thesis
    unfolding degrees_keys set_first_appearance .
qed

lemma length_edge_endpoints: "length (edge_endpoints es) = 2 * length es"
  by (induction es) (simp_all add: edge_endpoints_def)

lemma distances_buildMetrics:
  "hubId (buildMetrics g) = Some h \<Longrightarrow>
   distances (buildMetrics g) = bfs_loop (adjacency (buildMetrics g)) [h] (map_set h 0 [])"
  by (simp add: buildMetrics_def Let_def)

text \<open>
  C4. For a snapshot with a hub (of a size a JavaScript array can have), the level of the
  hub is 0; every node at shortest edge-count distance \<open>n\<close> from the hub over the
  undirected graph of the snapshot has level \<open>n\<close>; every node reachable from the hub has
  a level below \<open>Number.MAX_SAFE_INTEGER\<close>; and every node not reachable from the hub
  has level \<open>Number.MAX_SAFE_INTEGER\<close>, the one marker of the layouts.
\<close>

theorem bfs_levels_are_shortest_distances:
  assumes hub: "hubId (buildMetrics g) = Some h"
    and size: "length (nodes g) + 2 * length (edges g) \<le> MAX_SAFE_INTEGER"
  shows "level_of (distances (buildMetrics g)) h = 0
       \<and> (\<forall>v n. shortest (linked g) h v n \<longrightarrow> level_of (distances (buildMetrics g)) v = n)
       \<and> (\<forall>v n. walk (linked g) h n v \<longrightarrow> level_of (distances (buildMetrics g)) v < MAX_SAFE_INTEGER)
       \<and> (\<forall>v. (\<nexists>n. walk (linked g) h n v) \<longrightarrow>
               level_of (distances (buildMetrics g)) v = MAX_SAFE_INTEGER)"
proof -
  let ?ds = "distances (buildMetrics g)"
  let ?D = "map_of ?ds"
  let ?E = "linked g"
  have "bfs_inv (adjacency (buildMetrics g)) h [] ?ds"
    unfolding distances_buildMetrics [OF hub] by (intro bfs_loop_inv bfs_inv_start)
  then have dist: "distinct (map fst ?ds)" and qi: "queue_inv ?E h [] ?D"
    unfolding bfs_inv_def edge_of_buildMetrics by blast+
  from qi have i1: "?D h = Some 0"
    and i2: "\<And>v k. ?D v = Some k \<Longrightarrow> walk ?E h k v"
    and i6: "\<And>v w. v \<in> dom ?D \<Longrightarrow> ?E v w \<Longrightarrow> w \<in> dom ?D"
    and i7: "\<And>v w dv dw. ?D v = Some dv \<Longrightarrow> ?D w = Some dw \<Longrightarrow> ?E v w \<Longrightarrow> dw \<le> dv + 1"
    and i8: "\<And>v k. ?D v = Some (Suc k) \<Longrightarrow> \<exists>p. ?D p = Some k"
    unfolding queue_inv_def by (simp_all (no_asm_use)) blast+
  have reach: "\<And>v m. walk ?E h m v \<Longrightarrow> \<exists>k. ?D v = Some k \<and> k \<le> m"
    by (rule walk_closed [where D = ?D and E = ?E, OF _ i1 i6 i7])
  have a: "level_of ?ds h = 0" using i1 by (simp add: level_of_def)
  have b: "\<forall>v n. shortest ?E h v n \<longrightarrow> level_of ?ds v = n"
  proof (intro allI impI)
    fix v n assume s: "shortest ?E h v n"
    then have "walk ?E h n v" by (simp add: shortest_def)
    from reach [OF this] obtain k where k: "?D v = Some k" "k \<le> n" by blast
    from i2 [OF k(1)] s have "n \<le> k" by (simp add: shortest_def)
    with k show "level_of ?ds v = n" by (simp add: level_of_def)
  qed
  have keys: "dom ?D \<subseteq> set (map node_id (nodes g) @ edge_endpoints (edges g))"
  proof
    fix v assume "v \<in> dom ?D"
    then obtain k where "?D v = Some k" by auto
    from walk_target [OF i2 [OF this]] show "v \<in> set (map node_id (nodes g) @ edge_endpoints (edges g))"
      using hub_in_keys [OF hub] linked_endpoint [of g _ v] by auto
  qed
  have "card (dom ?D) \<le> card (set (map node_id (nodes g) @ edge_endpoints (edges g)))"
    by (rule card_mono [OF _ keys]) simp
  also have "\<dots> \<le> length (map node_id (nodes g) @ edge_endpoints (edges g))"
    by (rule card_length)
  also have "\<dots> = length (nodes g) + 2 * length (edges g)"
    by (simp add: length_edge_endpoints)
  finally have bound: "card (dom ?D) \<le> MAX_SAFE_INTEGER" using size by simp
  have c: "\<forall>v n. walk ?E h n v \<longrightarrow> level_of ?ds v < MAX_SAFE_INTEGER"
  proof (intro allI impI)
    fix v n assume "walk ?E h n v"
    from reach [OF this] obtain k where k: "?D v = Some k" by blast
    have "k < card (dom ?D)"
    proof (rule level_less_card [where D = ?D])
      show "\<And>v n. ?D v = Some (Suc n) \<Longrightarrow> \<exists>p. ?D p = Some n" by (rule i8)
      show "?D v = Some k" by (rule k)
      show "finite (dom ?D)" by (rule finite_dom_map_of)
    qed
    with bound k show "level_of ?ds v < MAX_SAFE_INTEGER" by (simp add: level_of_def)
  qed
  have d: "\<forall>v. (\<nexists>n. walk ?E h n v) \<longrightarrow> level_of ?ds v = MAX_SAFE_INTEGER"
  proof (intro allI impI)
    fix v assume n: "\<nexists>n. walk ?E h n v"
    have "?D v = None"
    proof (cases "?D v")
      case None
      then show ?thesis .
    next
      case (Some k)
      from i2 [OF this] n show ?thesis by blast
    qed
    then show "level_of ?ds v = MAX_SAFE_INTEGER" by (simp add: level_of_def)
  qed
  from a b c d show ?thesis by blast
qed

text \<open>The levels of the example graph.\<close>

lemma walk_0_iff: "walk E u 0 v \<longleftrightarrow> v = u"
proof
  assume "walk E u 0 v"
  then show "v = u" by (cases rule: walk.cases) simp_all
next
  assume "v = u"
  then show "walk E u 0 v" by (simp add: walk_here)
qed

lemma walk_Suc_iff: "walk E u (Suc n) w \<longleftrightarrow> (\<exists>v. walk E u n v \<and> E v w)"
proof
  assume "walk E u (Suc n) w"
  then show "\<exists>v. walk E u n v \<and> E v w" by (cases rule: walk.cases) auto
next
  assume "\<exists>v. walk E u n v \<and> E v w"
  then show "walk E u (Suc n) w" by (blast intro: walk_step)
qed

theorem bfs_levels_are_shortest_distances_witness:
  "hubId (buildMetrics example_graph) = Some ''h''
   \<and> level_of (distances (buildMetrics example_graph)) ''h'' = 0
   \<and> shortest (linked example_graph) ''h'' ''e'' 2
   \<and> level_of (distances (buildMetrics example_graph)) ''e'' = 2
   \<and> (\<nexists>n. walk (linked example_graph) ''h'' n ''x'')
   \<and> level_of (distances (buildMetrics example_graph)) ''x'' = MAX_SAFE_INTEGER"
proof -
  let ?L = "level_of (distances (buildMetrics example_graph))"
  have h1: "hubId (buildMetrics example_graph) = Some ''h''" by code_simp
  have h2: "length (nodes example_graph) + 2 * length (edges example_graph) \<le> MAX_SAFE_INTEGER"
    by (simp add: example_graph_def MAX_SAFE_INTEGER_def)
  from bfs_levels_are_shortest_distances [OF h1 h2]
  have a: "?L ''h'' = 0"
    and b: "\<And>v n. shortest (linked example_graph) ''h'' v n \<Longrightarrow> ?L v = n"
    and c: "\<And>v n. walk (linked example_graph) ''h'' n v \<Longrightarrow> ?L v < MAX_SAFE_INTEGER"
    and d: "\<And>v. (\<nexists>n. walk (linked example_graph) ''h'' n v) \<Longrightarrow> ?L v = MAX_SAFE_INTEGER"
    by blast+
  have l1: "linked example_graph ''h'' ''a''" by code_simp
  have l2: "linked example_graph ''a'' ''e''" by code_simp
  have l3: "\<not> linked example_graph ''h'' ''e''" by code_simp
  have ne: "''e'' \<noteq> ''h''" by simp
  have w2: "walk (linked example_graph) ''h'' 2 ''e''"
    using l1 l2 by (auto simp: numeral_2_eq_2 walk_Suc_iff walk_0_iff)
  have "\<And>m. walk (linked example_graph) ''h'' m ''e'' \<Longrightarrow> 2 \<le> m"
  proof -
    fix m assume w: "walk (linked example_graph) ''h'' m ''e''"
    show "2 \<le> m"
    proof (rule ccontr)
      assume "\<not> 2 \<le> m"
      then consider "m = 0" | "m = Suc 0" by fastforce
      then show False
      proof cases
        case 1
        with w ne show False by (simp add: walk_0_iff)
      next
        case 2
        with w l3 show False by (simp add: walk_Suc_iff walk_0_iff)
      qed
    qed
  qed
  with w2 have s: "shortest (linked example_graph) ''h'' ''e'' 2"
    by (simp add: shortest_def)
  have "map_of (distances (buildMetrics example_graph)) ''x'' = None" by code_simp
  then have x: "?L ''x'' = MAX_SAFE_INTEGER" by (simp add: level_of_def)
  have nx: "\<nexists>n. walk (linked example_graph) ''h'' n ''x''"
  proof
    assume "\<exists>n. walk (linked example_graph) ''h'' n ''x''"
    then obtain n where "walk (linked example_graph) ''h'' n ''x''" ..
    from c [OF this] x show False by simp
  qed
  from h1 a s b [OF s] nx d [OF nx] show ?thesis by blast
qed

section \<open>Layout engine: the hierarchical layout\<close>

lemma place_all_snoc:
  "place_all f (ids @ [a]) pos = map_set a (f (length ids) a) (place_all f ids pos)"
  by (simp add: place_all_def enumerate_append_eq)

lemma map_of_place_all_other:
  "i \<notin> set ids \<Longrightarrow> map_of (place_all f ids pos) i = map_of pos i"
proof (induction ids rule: rev_induct)
  case Nil
  then show ?case by (simp add: place_all_def)
next
  case (snoc a ids)
  then show ?case by (simp add: place_all_snoc map_of_map_set)
qed

lemma map_of_place_all_nth:
  "distinct ids \<Longrightarrow> j < length ids \<Longrightarrow>
   map_of (place_all f ids pos) (ids ! j) = Some (f j (ids ! j))"
proof (induction ids rule: rev_induct)
  case Nil
  then show ?case by simp
next
  case (snoc a ids)
  show ?case
  proof (cases "j = length ids")
    case True
    then show ?thesis by (simp add: place_all_snoc map_of_map_set)
  next
    case False
    with snoc.prems have j: "j < length ids" by simp
    then have "ids ! j \<in> set ids" by simp
    with snoc.prems have "ids ! j \<noteq> a" by auto
    with j snoc show ?thesis by (simp add: place_all_snoc map_of_map_set nth_append)
  qed
qed

lemma keys_place_all: "fst ` set (place_all f ids pos) = set ids \<union> fst ` set pos"
proof (induction ids rule: rev_induct)
  case Nil
  then show ?case by (simp add: place_all_def)
next
  case (snoc a ids)
  then show ?case unfolding place_all_snoc keys_map_set by auto
qed

lemma levelBuckets_snoc:
  "levelBuckets (la @ [il]) = push_level (levelBuckets la) (snd il) (fst il)"
  by (simp add: levelBuckets_def)

lemma layer_members_snoc:
  "layer_members (la @ [il]) L = layer_members la L @ (if snd il = L then [fst il] else [])"
  by (simp add: layer_members_def)

lemma map_of_levelBuckets:
  "map_of (levelBuckets la) L =
     (if layer_members la L = [] then None else Some (layer_members la L))"
proof (induction la rule: rev_induct)
  case Nil
  then show ?case by (simp add: levelBuckets_def layer_members_def)
next
  case (snoc il la)
  show ?case
  proof (cases "snd il = L")
    case True
    then show ?thesis
      using snoc by (simp add: levelBuckets_snoc layer_members_snoc push_level_def map_of_map_set)
  next
    case False
    then show ?thesis
      using snoc
      by (simp add: levelBuckets_snoc layer_members_snoc push_level_def map_of_map_set
               split: option.splits)
  qed
qed

lemma distinct_push_level:
  "distinct (map fst b) \<Longrightarrow> distinct (map fst (push_level b l i))"
  by (simp add: push_level_def distinct_map_set split: option.splits)

lemma distinct_levelBuckets: "distinct (map fst (levelBuckets la))"
  by (induction la rule: rev_induct)
     (simp_all add: levelBuckets_snoc distinct_push_level, simp add: levelBuckets_def)

lemma levelBuckets_entry:
  "(L, ids) \<in> set (levelBuckets la) \<longleftrightarrow> ids = layer_members la L \<and> ids \<noteq> []"
proof -
  have "(L, ids) \<in> set (levelBuckets la) \<longleftrightarrow> map_of (levelBuckets la) L = Some ids"
    using distinct_levelBuckets [of la] by simp
  then show ?thesis by (auto simp: map_of_levelBuckets)
qed

lemma distinct_layer_members:
  "distinct (map fst la) \<Longrightarrow> distinct (layer_members la L)"
  unfolding layer_members_def by (simp add: distinct_map_filter)

lemma in_layer_members:
  "distinct (map fst la) \<Longrightarrow> i \<in> set (layer_members la L) \<longleftrightarrow> map_of la i = Some L"
  by (auto simp: layer_members_def intro: rev_image_eqI)

lemma assign_known_fold:
  "map_of (fst (foldl (assign_known ds) s ns)) i =
     (if i \<in> node_id ` set ns \<and> map_of ds i \<noteq> None then map_of ds i else map_of (fst s) i)"
proof (induction ns arbitrary: s)
  case Nil
  then show ?case by simp
next
  case (Cons n ns)
  show ?case
  proof (cases "map_of ds (node_id n)")
    case None
    then have "assign_known ds s n = s" by (simp add: assign_known_def)
    with None show ?thesis by (auto simp: Cons.IH)
  next
    case (Some l)
    then have "fst (assign_known ds s n) = map_set (node_id n) l (fst s)"
      by (simp add: assign_known_def)
    with Some show ?thesis by (auto simp: Cons.IH map_of_map_set)
  qed
qed

lemma assign_known_distinct:
  "distinct (map fst (fst s)) \<Longrightarrow> distinct (map fst (fst (foldl (assign_known ds) s ns)))"
proof (induction ns arbitrary: s)
  case Nil
  then show ?case by simp
next
  case (Cons n ns)
  have "distinct (map fst (fst (assign_known ds s n)))"
    using Cons.prems by (simp add: assign_known_def distinct_map_set split: option.splits)
  from Cons.IH [OF this] show ?case by simp
qed

lemma assign_extra_distinct:
  "distinct (map fst (fst s)) \<Longrightarrow> distinct (map fst (fst (foldl assign_extra s ns)))"
proof (induction ns arbitrary: s)
  case Nil
  then show ?case by simp
next
  case (Cons n ns)
  have "distinct (map fst (fst (assign_extra s n)))"
    using Cons.prems by (simp add: assign_extra_def distinct_map_set)
  from Cons.IH [OF this] show ?case by simp
qed

lemma assign_extra_step:
  "map_of (fst (assign_extra s n)) i =
     (if i = node_id n \<and> map_of (fst s) i = None then Some (snd s) else map_of (fst s) i)"
  by (auto simp: assign_extra_def map_has_def map_of_map_set)

lemma assign_extra_counter: "snd s \<le> snd (assign_extra s n)"
  by (simp add: assign_extra_def)

lemma assign_extra_fold:
  "(map_of (fst s) i = Some l \<longrightarrow> map_of (fst (foldl assign_extra s ns)) i = Some l)
   \<and> (map_of (fst s) i = None \<longrightarrow>
        (if i \<in> node_id ` set ns
         then \<exists>l. map_of (fst (foldl assign_extra s ns)) i = Some l \<and> snd s \<le> l
         else map_of (fst (foldl assign_extra s ns)) i = None))"
proof (induction ns arbitrary: s l)
  case Nil
  then show ?case by simp
next
  case (Cons n ns)
  let ?s1 = "assign_extra s n"
  note ih = Cons.IH [of ?s1 l]
  show ?case
  proof (intro conjI impI)
    assume a: "map_of (fst s) i = Some l"
    then have "map_of (fst ?s1) i = Some l" by (simp add: assign_extra_step)
    with ih show "map_of (fst (foldl assign_extra s (n # ns))) i = Some l" by simp
  next
    assume a: "map_of (fst s) i = None"
    show "if i \<in> node_id ` set (n # ns)
          then \<exists>l. map_of (fst (foldl assign_extra s (n # ns))) i = Some l \<and> snd s \<le> l
          else map_of (fst (foldl assign_extra s (n # ns))) i = None"
    proof (cases "i = node_id n")
      case True
      with a have "map_of (fst ?s1) i = Some (snd s)" by (simp add: assign_extra_step)
      then have "map_of (fst (foldl assign_extra ?s1 ns)) i = Some (snd s)"
        using Cons.IH [of ?s1 "snd s"] by blast
      with True show ?thesis by simp
    next
      case False
      with a have n1: "map_of (fst ?s1) i = None" by (simp add: assign_extra_step)
      show ?thesis
      proof (cases "i \<in> node_id ` set ns")
        case True
        with n1 Cons.IH [of ?s1 l] obtain l' where
          "map_of (fst (foldl assign_extra ?s1 ns)) i = Some l'" "snd ?s1 \<le> l'" by auto
        moreover have "snd s \<le> snd ?s1" by (rule assign_extra_counter)
        ultimately show ?thesis using True by auto
      next
        case False
        with n1 Cons.IH [of ?s1 l] have "map_of (fst (foldl assign_extra ?s1 ns)) i = None" by auto
        with False \<open>i \<noteq> node_id n\<close> show ?thesis by simp
      qed
    qed
  qed
qed

lemma levelAssignments_distinct: "distinct (map fst (levelAssignments ns ds))"
  unfolding levelAssignments_def Let_def
  by (intro assign_extra_distinct) (simp add: assign_known_distinct)

lemma levelAssignments_known:
  assumes "i \<in> node_id ` set ns" and "map_of ds i = Some l"
  shows "map_of (levelAssignments ns ds) i = Some l"
proof -
  let ?k = "foldl (assign_known ds) ([], 0) ns"
  have "map_of (fst ?k) i = Some l"
    using assms by (simp add: assign_known_fold)
  then show ?thesis
    unfolding levelAssignments_def Let_def
    using assign_extra_fold [of "(fst ?k, snd ?k + 1)" i l ns] by simp
qed

lemma levelAssignments_total:
  assumes "i \<in> node_id ` set ns"
  shows "map_of (levelAssignments ns ds) i \<noteq> None"
proof -
  let ?k = "foldl (assign_known ds) ([], 0) ns"
  show ?thesis
  proof (cases "map_of (fst ?k) i")
    case None
    then show ?thesis
      unfolding levelAssignments_def Let_def
      using assign_extra_fold [of "(fst ?k, snd ?k + 1)" i 0 ns] assms by auto
  next
    case (Some l)
    then show ?thesis
      unfolding levelAssignments_def Let_def
      using assign_extra_fold [of "(fst ?k, snd ?k + 1)" i l ns] by simp
  qed
qed

lemma levelAssignments_nodes:
  assumes "map_of (levelAssignments ns ds) i = Some l"
  shows "i \<in> node_id ` set ns"
proof (rule ccontr)
  assume n: "i \<notin> node_id ` set ns"
  let ?k = "foldl (assign_known ds) ([], 0) ns"
  have "map_of (fst ?k) i = None" using n by (simp add: assign_known_fold)
  then have "map_of (levelAssignments ns ds) i = None"
    unfolding levelAssignments_def Let_def
    using assign_extra_fold [of "(fst ?k, snd ?k + 1)" i 0 ns] n by simp
  with assms show False by simp
qed

lemma levelAssignments_zero:
  assumes "map_of (levelAssignments ns ds) i = Some 0"
  shows "map_of ds i = Some 0"
proof -
  let ?k = "foldl (assign_known ds) ([], 0) ns"
  have i: "i \<in> node_id ` set ns" using assms by (rule levelAssignments_nodes)
  show ?thesis
  proof (cases "map_of (fst ?k) i")
    case None
    with i assign_extra_fold [of "(fst ?k, snd ?k + 1)" i 0 ns]
    obtain l where "map_of (levelAssignments ns ds) i = Some l" and "snd ?k + 1 \<le> l"
      unfolding levelAssignments_def Let_def by auto
    with assms show ?thesis by simp
  next
    case (Some l)
    then have "map_of (levelAssignments ns ds) i = Some l"
      unfolding levelAssignments_def Let_def
      using assign_extra_fold [of "(fst ?k, snd ?k + 1)" i l ns] by simp
    with assms have "l = 0" by simp
    with Some i show ?thesis by (simp add: assign_known_fold split: if_splits)
  qed
qed

lemma place_layer_untouched:
  "i \<notin> set (snd e) \<Longrightarrow> map_of (place_layer deg n pos e) i = map_of pos i"
  by (simp add: place_layer_def Let_def map_of_place_all_other)

lemma fold_place_layer_untouched:
  "\<forall>e \<in> set es. i \<notin> set (snd e) \<Longrightarrow>
   map_of (foldl (place_layer deg n) pos es) i = map_of pos i"
  by (induction es arbitrary: pos) (simp_all add: place_layer_untouched)

lemma place_layer_nth:
  assumes "distinct m" and "j < length m"
  shows "map_of (place_layer deg n pos (L, m)) (sort_key (\<lambda>i. - int (degree_or_0 deg i)) m ! j) =
           Some ((real j - (real (length m) - 1) / 2) * 160, (real L - (real n - 1) / 2) * 160)"
proof -
  let ?ids = "sort_key (\<lambda>i. - int (degree_or_0 deg i)) m"
  have d: "distinct ?ids" using assms(1) by simp
  have l: "j < length ?ids" using assms(2) by simp
  show ?thesis
    unfolding place_layer_def Let_def fst_conv snd_conv
    using map_of_place_all_nth [OF d l] by simp
qed

lemma fold_place_layer_nth:
  assumes keys: "distinct (map fst es)" and e: "(L, m) \<in> set es" and dm: "distinct m"
    and disj: "\<forall>e' \<in> set es. fst e' \<noteq> L \<longrightarrow> set (snd e') \<inter> set m = {}"
    and j: "j < length m"
  shows "map_of (foldl (place_layer deg n) pos es) (sort_key (\<lambda>i. - int (degree_or_0 deg i)) m ! j) =
           Some ((real j - (real (length m) - 1) / 2) * 160, (real L - (real n - 1) / 2) * 160)"
proof -
  let ?i = "sort_key (\<lambda>i. - int (degree_or_0 deg i)) m ! j"
  from e obtain pre post where es: "es = pre @ (L, m) # post"
    by (meson split_list)
  have "?i \<in> set (sort_key (\<lambda>i. - int (degree_or_0 deg i)) m)"
    using j by (intro nth_mem) simp
  then have im: "?i \<in> set m" by simp
  have "\<forall>e' \<in> set post. ?i \<notin> set (snd e')"
  proof
    fix e' assume p: "e' \<in> set post"
    then have "fst e' \<noteq> L" using keys unfolding es by (auto simp: rev_image_eqI)
    moreover have "e' \<in> set es" using p unfolding es by simp
    ultimately have "set (snd e') \<inter> set m = {}" using disj by blast
    with im show "?i \<notin> set (snd e')" by blast
  qed
  then have "map_of (foldl (place_layer deg n) pos es) ?i =
        map_of (place_layer deg n (foldl (place_layer deg n) pos pre) (L, m)) ?i"
    unfolding es by (simp add: fold_place_layer_untouched)
  then show ?thesis
    using place_layer_nth [OF dm j] by simp
qed

lemma keys_place_layer: "fst ` set (place_layer deg n pos e) = set (snd e) \<union> fst ` set pos"
  by (simp add: place_layer_def Let_def keys_place_all)

lemma keys_fold_place_layer:
  "fst ` set (foldl (place_layer deg n) pos es) = (\<Union>e \<in> set es. set (snd e)) \<union> fst ` set pos"
  by (induction es arbitrary: pos) (auto simp: keys_place_layer)

lemma rev_upt_0: "rev [0..<n] = map (\<lambda>j. n - 1 - j) [0..<n]"
  by (rule nth_equalityI) (simp_all add: rev_nth)

lemma symmetric_row:
  "image_mset uminus (mset (map (\<lambda>j. (real j - (real n - 1) / 2) * s) [0..<n])) =
   mset (map (\<lambda>j. (real j - (real n - 1) / 2) * s) [0..<n])"
proof -
  let ?f = "\<lambda>j. (real j - (real n - 1) / 2) * s"
  have "map (\<lambda>j. - ?f j) [0..<n] = map (\<lambda>j. ?f (n - 1 - j)) [0..<n]"
  proof (rule map_cong [OF refl])
    fix j assume "j \<in> set [0..<n]"
    then have "j < n" by simp
    then have "real (n - 1 - j) = real n - 1 - real j" by (simp add: of_nat_diff)
    then show "- ?f j = ?f (n - 1 - j)" by (simp add: algebra_simps)
  qed
  also have "\<dots> = map ?f (rev [0..<n])"
    unfolding rev_upt_0 by (simp add: comp_def)
  finally have "mset (map (\<lambda>j. - ?f j) [0..<n]) = mset (map ?f (rev [0..<n]))" by simp
  also have "\<dots> = mset (map ?f [0..<n])" by (simp only: mset_map mset_rev)
  finally have e: "mset (map (\<lambda>j. - ?f j) [0..<n]) = mset (map ?f [0..<n])" .
  have "image_mset uminus (mset (map ?f [0..<n])) = mset (map (uminus \<circ> ?f) [0..<n])"
    by (simp only: mset_map multiset.map_comp)
  also have "\<dots> = mset (map (\<lambda>j. - ?f j) [0..<n])" by (simp only: comp_def)
  finally show ?thesis using e by simp
qed

lemma hub_distance_zero:
  assumes "hubId (buildMetrics g) = Some h"
  shows "map_of (distances (buildMetrics g)) i = Some 0 \<longleftrightarrow> i = h"
proof -
  let ?D = "map_of (distances (buildMetrics g))"
  have "bfs_inv (adjacency (buildMetrics g)) h [] (distances (buildMetrics g))"
    unfolding distances_buildMetrics [OF assms] by (intro bfs_loop_inv bfs_inv_start)
  then have qi: "queue_inv (linked g) h [] ?D"
    unfolding bfs_inv_def edge_of_buildMetrics by blast
  then have 1: "?D h = Some 0" and 2: "\<And>v k. ?D v = Some k \<Longrightarrow> walk (linked g) h k v"
    unfolding queue_inv_def by blast+
  show ?thesis
  proof
    assume "?D i = Some 0"
    from 2 [OF this] show "i = h" by (simp add: walk_0_iff)
  next
    assume "i = h"
    with 1 show "?D i = Some 0" by simp
  qed
qed

lemma distinct_map_sort_key: "distinct (map f (sort_key k xs)) = distinct (map f xs)"
proof -
  have "mset (map f (sort_key k xs)) = mset (map f xs)" by simp
  then show ?thesis by (rule mset_eq_imp_distinct_iff)
qed

lemma hierarchy_rows_nth:
  assumes j: "j < length (layer_members (levelAssignments ns (distances m)) L)"
  shows "map_of (hierarchy_rows ns m)
           (sort_key (\<lambda>i. - int (degree_or_0 (degrees m) i))
              (layer_members (levelAssignments ns (distances m)) L) ! j) =
         Some ((real j - (real (length (layer_members (levelAssignments ns (distances m)) L)) - 1) / 2) * 160,
               (real L - (real (length (levelBuckets (levelAssignments ns (distances m)))) - 1) / 2) * 160)"
proof -
  let ?la = "levelAssignments ns (distances m)"
  let ?S = "sort_key fst (levelBuckets ?la)"
  let ?M = "layer_members ?la L"
  have dla: "distinct (map fst ?la)" by (rule levelAssignments_distinct)
  have keys: "distinct (map fst ?S)"
    by (simp add: distinct_map_sort_key distinct_levelBuckets)
  from j have "?M \<noteq> []" by auto
  then have e: "(L, ?M) \<in> set ?S" by (simp add: levelBuckets_entry)
  have dm: "distinct ?M" using dla by (rule distinct_layer_members)
  have disj: "\<forall>e' \<in> set ?S. fst e' \<noteq> L \<longrightarrow> set (snd e') \<inter> set ?M = {}"
  proof (intro ballI impI)
    fix e' assume a: "e' \<in> set ?S" and b: "fst e' \<noteq> L"
    from a have "e' \<in> set (levelBuckets ?la)" by simp
    then have s: "snd e' = layer_members ?la (fst e')"
      by (metis levelBuckets_entry prod.collapse)
    show "set (snd e') \<inter> set ?M = {}"
    proof (rule ccontr)
      assume "set (snd e') \<inter> set ?M \<noteq> {}"
      then obtain i where "i \<in> set (layer_members ?la (fst e'))" and "i \<in> set ?M"
        unfolding s by blast
      then have "map_of ?la i = Some (fst e')" and "map_of ?la i = Some L"
        using dla by (simp_all add: in_layer_members)
      with b show False by simp
    qed
  qed
  show ?thesis
    unfolding hierarchy_rows_def Let_def
    using fold_place_layer_nth [OF keys e dm disj j, of "degrees m" "length ?S" "[]"]
    by simp
qed

lemma hierarchy_rows_member:
  assumes "map_of (levelAssignments ns (distances m)) i = Some L"
  shows "\<exists>x. map_of (hierarchy_rows ns m) i =
           Some (x, (real L - (real (length (levelBuckets (levelAssignments ns (distances m)))) - 1) / 2) * 160)"
proof -
  let ?la = "levelAssignments ns (distances m)"
  let ?M = "layer_members ?la L"
  let ?ids = "sort_key (\<lambda>i. - int (degree_or_0 (degrees m) i)) ?M"
  have "i \<in> set ?M"
    using assms levelAssignments_distinct [of ns "distances m"] by (simp add: in_layer_members)
  then have "i \<in> set ?ids" by simp
  then obtain j where j: "j < length ?ids" and i: "?ids ! j = i"
    by (metis in_set_conv_nth)
  from j have "j < length ?M" by simp
  from hierarchy_rows_nth [OF this] i show ?thesis by auto
qed

lemma hierarchy_rows_keys:
  assumes "map_of (hierarchy_rows ns m) i = Some p"
  shows "\<exists>L. map_of (levelAssignments ns (distances m)) i = Some L"
proof -
  let ?la = "levelAssignments ns (distances m)"
  let ?S = "sort_key fst (levelBuckets ?la)"
  from assms have "i \<in> fst ` set (hierarchy_rows ns m)"
    by (metis map_of_eq_None_iff option.distinct(1))
  then have "i \<in> (\<Union>e \<in> set ?S. set (snd e))"
    unfolding hierarchy_rows_def Let_def keys_fold_place_layer by simp
  then obtain e where e: "e \<in> set ?S" and i: "i \<in> set (snd e)" by blast
  from e have "e \<in> set (levelBuckets ?la)" by simp
  then have "snd e = layer_members ?la (fst e)"
    by (metis levelBuckets_entry prod.collapse)
  with i have "map_of ?la i = Some (fst e)"
    using levelAssignments_distinct [of ns "distances m"] by (simp add: in_layer_members)
  then show ?thesis ..
qed

lemma hub_row_centred:
  assumes hub: "hubId (buildMetrics g) = Some h"
    and p: "map_of (hierarchy_rows ns (buildMetrics g)) h = Some p"
  shows "fst p = 0"
proof -
  let ?m = "buildMetrics g"
  let ?la = "levelAssignments ns (distances ?m)"
  let ?M = "layer_members ?la 0"
  have dla: "distinct (map fst ?la)" by (rule levelAssignments_distinct)
  from hierarchy_rows_keys [OF p] obtain L where L: "map_of ?la h = Some L" ..
  then have hn: "h \<in> node_id ` set ns" by (rule levelAssignments_nodes)
  have "map_of (distances ?m) h = Some 0" using hub by (simp add: hub_distance_zero)
  from levelAssignments_known [OF hn this] have h0: "map_of ?la h = Some 0" .
  then have hM: "h \<in> set ?M" using dla by (simp add: in_layer_members)
  have "set ?M \<subseteq> {h}"
  proof
    fix i assume "i \<in> set ?M"
    then have "map_of ?la i = Some 0" using dla by (simp add: in_layer_members)
    then have "map_of (distances ?m) i = Some 0" by (rule levelAssignments_zero)
    then show "i \<in> {h}" using hub by (simp add: hub_distance_zero)
  qed
  with hM have s: "set ?M = {h}" by blast
  have d: "distinct ?M" using dla by (rule distinct_layer_members)
  have len: "length ?M = 1"
    using distinct_card [OF d] s by simp
  then obtain a where M: "?M = [a]" by (cases ?M) auto
  with s have M': "?M = [h]" by simp
  have "0 < length ?M" using len by simp
  from hierarchy_rows_nth [OF this] have
    "map_of (hierarchy_rows ns ?m) h =
       Some (0, (real 0 - (real (length (levelBuckets ?la)) - 1) / 2) * 160)"
    unfolding M' by simp
  with p have "p = (0, (real 0 - (real (length (levelBuckets ?la)) - 1) / 2) * 160)"
    by (simp only: option.inject)
  then show ?thesis by (simp only: fst_conv)
qed

lemma computeHierarchyLayout_rows:
  "map_of (computeHierarchyLayout ns (buildMetrics g)) = map_of (hierarchy_rows ns (buildMetrics g))"
proof (cases "ns = []")
  case True
  then show ?thesis
    by (simp add: computeHierarchyLayout_def hierarchy_rows_def levelAssignments_def levelBuckets_def)
next
  case False
  let ?m = "buildMetrics g"
  let ?rows = "hierarchy_rows ns ?m"
  have c: "computeHierarchyLayout ns ?m =
     (case hubId ?m of
        None \<Rightarrow> ?rows
      | Some h \<Rightarrow>
          if h \<noteq> [] then
            (case map_of ?rows h of Some p \<Rightarrow> map_set h (0, snd p) ?rows | None \<Rightarrow> ?rows)
          else ?rows)"
    by (simp only: computeHierarchyLayout_def hierarchy_rows_def Let_def False if_False)
  show ?thesis
  proof (cases "hubId ?m")
    case None
    with c show ?thesis by simp
  next
    case (Some h)
    show ?thesis
    proof (cases "map_of ?rows h")
      case None
      with c Some show ?thesis by simp
    next
      case (Some p)
      from hub_row_centred [OF \<open>hubId ?m = Some h\<close> Some] have "p = (0, snd p)"
        by (metis prod.collapse)
      then have "(map_of ?rows)(h \<mapsto> (0, snd p)) = map_of ?rows"
        using Some by (metis fun_upd_triv)
      with c Some \<open>hubId ?m = Some h\<close> show ?thesis
        by (simp add: map_of_map_set)
    qed
  qed
qed

lemma position_of_rows:
  "position_of (computeHierarchyLayout ns (buildMetrics g)) i =
   position_of (hierarchy_rows ns (buildMetrics g)) i"
  by (simp add: position_of_def computeHierarchyLayout_rows)

lemma layer_xs_row:
  "layer_xs g L =
     mset (map (\<lambda>j. (real j - (real (length (layer_members
                  (levelAssignments (nodes g) (distances (buildMetrics g))) L)) - 1) / 2) * 160)
            [0..<length (layer_members (levelAssignments (nodes g) (distances (buildMetrics g))) L)])"
proof -
  let ?m = "buildMetrics g"
  let ?la = "levelAssignments (nodes g) (distances ?m)"
  let ?M = "layer_members ?la L"
  let ?ids = "sort_key (\<lambda>i. - int (degree_or_0 (degrees ?m) i)) ?M"
  let ?x = "\<lambda>i. fst (position_of (hierarchy_rows (nodes g) ?m) i)"
  let ?f = "\<lambda>j. (real j - (real (length ?M) - 1) / 2) * 160"
  have "layer_xs g L = image_mset ?x (mset ?M)"
    by (simp add: layer_xs_def position_of_rows)
  also have "\<dots> = image_mset ?x (mset ?ids)" by simp
  also have "\<dots> = mset (map ?x ?ids)" by simp
  also have "map ?x ?ids = map (\<lambda>j. ?x (?ids ! j)) [0..<length ?ids]"
    by (rule nth_equalityI) simp_all
  also have "\<dots> = map ?f [0..<length ?M]"
  proof (rule map_cong)
    show "[0..<length ?ids] = [0..<length ?M]" by simp
  next
    fix j assume "j \<in> set [0..<length ?M]"
    then have "j < length ?M" by simp
    from hierarchy_rows_nth [OF this] show "?x (?ids ! j) = ?f j"
      by (simp add: position_of_def)
  qed
  finally show ?thesis .
qed

text \<open>
  C9. In the hierarchical layout of a snapshot, every node has a layer and a position;
  two nodes have the same y-coordinate if and only if they are in the same layer; and in
  every layer the multiset of x-coordinates is symmetric about \<open>x = 0\<close> (recentring the
  hub changes nothing: the hub is alone in its layer).
\<close>

theorem hierarchy_layers_and_symmetry:
  "(\<forall>u \<in> node_id ` set (nodes g). \<forall>v \<in> node_id ` set (nodes g).
       layer_of g u \<noteq> None
     \<and> map_of (computeHierarchyLayout (nodes g) (buildMetrics g)) u \<noteq> None
     \<and> ((snd (position_of (computeHierarchyLayout (nodes g) (buildMetrics g)) u) =
          snd (position_of (computeHierarchyLayout (nodes g) (buildMetrics g)) v))
         = (layer_of g u = layer_of g v)))
   \<and> (\<forall>L. image_mset uminus (layer_xs g L) = layer_xs g L)"
proof (intro conjI ballI allI)
  fix u v assume u: "u \<in> node_id ` set (nodes g)" and v: "v \<in> node_id ` set (nodes g)"
  let ?m = "buildMetrics g"
  let ?la = "levelAssignments (nodes g) (distances ?m)"
  let ?c = "(real (length (levelBuckets ?la)) - 1) / 2"
  from levelAssignments_total [OF u, of "distances ?m"] obtain Lu where Lu: "map_of ?la u = Some Lu"
    by auto
  from levelAssignments_total [OF v, of "distances ?m"] obtain Lv where Lv: "map_of ?la v = Some Lv"
    by auto
  from hierarchy_rows_member [OF Lu] obtain xu where
    pu: "map_of (hierarchy_rows (nodes g) ?m) u = Some (xu, (real Lu - ?c) * 160)" ..
  from hierarchy_rows_member [OF Lv] obtain xv where
    pv: "map_of (hierarchy_rows (nodes g) ?m) v = Some (xv, (real Lv - ?c) * 160)" ..
  show "layer_of g u \<noteq> None" using Lu by (simp add: layer_of_def)
  show "map_of (computeHierarchyLayout (nodes g) ?m) u \<noteq> None"
    using pu by (simp add: computeHierarchyLayout_rows)
  have yu: "snd (position_of (computeHierarchyLayout (nodes g) ?m) u) = (real Lu - ?c) * 160"
    unfolding position_of_rows using pu by (simp add: position_of_def)
  have yv: "snd (position_of (computeHierarchyLayout (nodes g) ?m) v) = (real Lv - ?c) * 160"
    unfolding position_of_rows using pv by (simp add: position_of_def)
  show "(snd (position_of (computeHierarchyLayout (nodes g) ?m) u) =
         snd (position_of (computeHierarchyLayout (nodes g) ?m) v))
        = (layer_of g u = layer_of g v)"
    unfolding yu yv layer_of_def Lu Lv by simp
next
  fix L
  show "image_mset uminus (layer_xs g L) = layer_xs g L"
    unfolding layer_xs_row by (rule symmetric_row)
qed

text \<open>The layers of the example graph.\<close>

theorem hierarchy_layers_and_symmetry_witness:
  "layer_of example_graph ''a'' = Some 1 \<and> layer_of example_graph ''b'' = Some 1
   \<and> layer_of example_graph ''x'' = Some 3
   \<and> snd (position_of (computeHierarchyLayout (nodes example_graph) (buildMetrics example_graph)) ''a'')
       = snd (position_of (computeHierarchyLayout (nodes example_graph) (buildMetrics example_graph)) ''b'')
   \<and> snd (position_of (computeHierarchyLayout (nodes example_graph) (buildMetrics example_graph)) ''a'')
       \<noteq> snd (position_of (computeHierarchyLayout (nodes example_graph) (buildMetrics example_graph)) ''x'')
   \<and> layer_xs example_graph 1 = {#- 240, - 80, 80, 240#}
   \<and> image_mset uminus (layer_xs example_graph 1) = layer_xs example_graph 1"
proof -
  let ?P = "computeHierarchyLayout (nodes example_graph) (buildMetrics example_graph)"
  have a: "''a'' \<in> node_id ` set (nodes example_graph)" by (simp add: example_graph_def)
  have b: "''b'' \<in> node_id ` set (nodes example_graph)" by (simp add: example_graph_def)
  have x: "''x'' \<in> node_id ` set (nodes example_graph)" by (simp add: example_graph_def)
  have la: "layer_of example_graph ''a'' = Some 1" by code_simp
  have lb: "layer_of example_graph ''b'' = Some 1" by code_simp
  have lx: "layer_of example_graph ''x'' = Some 3" by code_simp
  note t = hierarchy_layers_and_symmetry [of example_graph]
  from t a b have "(snd (position_of ?P ''a'') = snd (position_of ?P ''b''))
      = (layer_of example_graph ''a'' = layer_of example_graph ''b'')" by blast
  with la lb have 1: "snd (position_of ?P ''a'') = snd (position_of ?P ''b'')" by simp
  from t a x have "(snd (position_of ?P ''a'') = snd (position_of ?P ''x''))
      = (layer_of example_graph ''a'' = layer_of example_graph ''x'')" by blast
  with la lx have 2: "snd (position_of ?P ''a'') \<noteq> snd (position_of ?P ''x'')" by simp
  from t have 3: "image_mset uminus (layer_xs example_graph 1) = layer_xs example_graph 1" by blast
  have m: "layer_members (levelAssignments (nodes example_graph)
              (distances (buildMetrics example_graph))) 1 = [''a'', ''b'', ''c'', ''d'']"
    by code_simp
  have 4: "layer_xs example_graph 1 = {#- 240, - 80, 80, 240#}"
    unfolding layer_xs_row m by (simp add: upt_rec)
  from la lb lx 1 2 3 4 show ?thesis by blast
qed

section \<open>Layout engine: the focused layout\<close>

lemma tie_graph_levelMap: "sort_key fst (levelMap (nodes tie_graph) (distances (buildMetrics tie_graph))) = [(0, [''b'']), (1, [''a''])]"
  by code_simp

lemma tie_graph_hub: "hubId (buildMetrics tie_graph) = Some ''b''"
  by code_simp

lemma tie_graph_nodes: "nodes tie_graph \<noteq> []"
  by code_simp

text \<open>
  C8. On the snapshot of one submission ("b", "a"), with the default canvas of 640 by 480,
  the revision of \<open>computeFocusedLayout\<close> bundled in server.js puts the hub "b" on the
  ring of index 0, at radius \<open>baseRadius - radiusStep = 19.2\<close> and angle -90 degrees,
  moved by the jitter: the ring loop has already placed the hub, so the guard
  \<open>!positions.has(hubId)\<close> keeps the origin from being assigned. No value of
  \<open>Math.random\<close> brings the hub to the origin. The revision in public/app.js puts the
  hub at the origin.
\<close>

theorem focused_hub_off_origin:
  "hubId (buildMetrics tie_graph) = Some ''b''
   \<and> map_of (computeFocusedLayout_jitter random 0 0 (nodes tie_graph) (buildMetrics tie_graph)) ''b''
       = Some ((random 0 - 0.5) * 18, - 19.2 + (random 0 - 0.5) * 18)
   \<and> map_of (computeFocusedLayout_jitter random 0 0 (nodes tie_graph) (buildMetrics tie_graph)) ''b''
       \<noteq> Some (0, 0)
   \<and> map_of (computeFocusedLayout 0 0 (nodes tie_graph) (buildMetrics tie_graph)) ''b'' = Some (0, 0)"
proof -
  have 1: "map_of (computeFocusedLayout_jitter random 0 0 (nodes tie_graph) (buildMetrics tie_graph)) ''b''
       = Some ((random 0 - 0.5) * 18, - 19.2 + (random 0 - 0.5) * 18)"
    by (simp add: computeFocusedLayout_jitter_def tie_graph_nodes tie_graph_levelMap tie_graph_hub Let_def place_ring_jitter_def place_all_def
     canvas_min_def map_has_def MAX_SAFE_INTEGER_def enumerate_eq_zip)
  have 2: "((random 0 - 0.5) * 18, - 19.2 + (random 0 - 0.5) * 18) \<noteq> ((0::real), (0::real))"
    by auto
  have 3: "map_of (computeFocusedLayout 0 0 (nodes tie_graph) (buildMetrics tie_graph)) ''b'' = Some (0, 0)"
    by (simp add: computeFocusedLayout_def tie_graph_nodes tie_graph_levelMap tie_graph_hub Let_def place_ring_def place_all_def
     canvas_min_def map_has_def MAX_SAFE_INTEGER_def enumerate_eq_zip)
  from tie_graph_hub 1 2 3 show ?thesis by simp
qed

text \<open>The two revisions on every snapshot.\<close>

lemma levelMap_buckets: "levelMap ns ds = levelBuckets (node_levels ns ds)"
  by (simp add: levelMap_def levelBuckets_def node_levels_def foldl_map)

lemma node_levels_keys: "map fst (node_levels ns ds) = map node_id ns"
  by (simp add: node_levels_def comp_def)

lemma in_level_members:
  assumes "distinct (map node_id ns)"
  shows "i \<in> set (layer_members (node_levels ns ds) L) \<longleftrightarrow>
           i \<in> node_id ` set ns \<and> level_of ds i = L"
proof -
  have d: "distinct (map fst (node_levels ns ds))" using assms by (simp add: node_levels_keys)
  have "map_of (node_levels ns ds) i = Some L \<longleftrightarrow> i \<in> node_id ` set ns \<and> level_of ds i = L"
    unfolding node_levels_def by (induction ns) auto
  then show ?thesis using in_layer_members [OF d] by simp
qed

lemma fold_place_untouched:
  assumes g: "\<And>pos e. g pos e = place_all (f e) (snd e) pos"
  shows "\<forall>e \<in> set es. i \<notin> set (snd e) \<Longrightarrow> map_of (foldl g pos es) i = map_of pos i"
  by (induction es arbitrary: pos) (simp_all add: g map_of_place_all_other)

lemma fold_place_nth:
  assumes g: "\<And>pos e. g pos e = place_all (f e) (snd e) pos"
    and keys: "distinct (map fst es)" and e: "(L, m) \<in> set es" and dm: "distinct m"
    and disj: "\<forall>e' \<in> set es. fst e' \<noteq> L \<longrightarrow> set (snd e') \<inter> set m = {}"
    and j: "j < length m"
  shows "map_of (foldl g pos es) (m ! j) = Some (f (L, m) j (m ! j))"
proof -
  from e obtain pre post where es: "es = pre @ (L, m) # post"
    by (meson split_list)
  have im: "m ! j \<in> set m" using j by simp
  have "\<forall>e' \<in> set post. m ! j \<notin> set (snd e')"
  proof
    fix e' assume p: "e' \<in> set post"
    then have "fst e' \<noteq> L" using keys unfolding es by (auto simp: rev_image_eqI)
    moreover have "e' \<in> set es" using p unfolding es by simp
    ultimately have "set (snd e') \<inter> set m = {}" using disj by blast
    with im show "m ! j \<notin> set (snd e')" by blast
  qed
  then have "map_of (foldl g pos es) (m ! j) = map_of (g (foldl g pos pre) (L, m)) (m ! j)"
    unfolding es by (simp add: fold_place_untouched [of g f, OF g])
  then show ?thesis
    using map_of_place_all_nth [OF dm j] by (simp add: g)
qed

lemma fold_place_keys:
  assumes g: "\<And>pos e. g pos e = place_all (f e) (snd e) pos"
  shows "fst ` set (foldl g pos es) = (\<Union>e \<in> set es. set (snd e)) \<union> fst ` set pos"
  by (induction es arbitrary: pos) (auto simp: g keys_place_all)

lemma sorted_levels_facts:
  assumes d: "distinct (map node_id ns)"
  shows "distinct (map fst (sort_key fst (levelMap ns ds)))"
    and "layer_members (node_levels ns ds) L \<noteq> [] \<Longrightarrow>
           (L, layer_members (node_levels ns ds) L) \<in> set (sort_key fst (levelMap ns ds))"
    and "distinct (layer_members (node_levels ns ds) L)"
    and "\<forall>e' \<in> set (sort_key fst (levelMap ns ds)).
           fst e' \<noteq> L \<longrightarrow> set (snd e') \<inter> set (layer_members (node_levels ns ds) L) = {}"
    and "(\<Union>e \<in> set (sort_key fst (levelMap ns ds)). set (snd e)) = node_id ` set ns"
proof -
  let ?nl = "node_levels ns ds"
  have dk: "distinct (map fst ?nl)" using d by (simp add: node_levels_keys)
  show "distinct (map fst (sort_key fst (levelMap ns ds)))"
    by (simp add: levelMap_buckets distinct_map_sort_key distinct_levelBuckets)
  show "layer_members ?nl L \<noteq> [] \<Longrightarrow> (L, layer_members ?nl L) \<in> set (sort_key fst (levelMap ns ds))"
    by (simp add: levelMap_buckets levelBuckets_entry)
  show "distinct (layer_members ?nl L)" using dk by (rule distinct_layer_members)
  show "\<forall>e' \<in> set (sort_key fst (levelMap ns ds)).
           fst e' \<noteq> L \<longrightarrow> set (snd e') \<inter> set (layer_members ?nl L) = {}"
  proof (intro ballI impI)
    fix e' assume a: "e' \<in> set (sort_key fst (levelMap ns ds))" and b: "fst e' \<noteq> L"
    from a have "e' \<in> set (levelBuckets ?nl)" by (simp add: levelMap_buckets)
    then have s: "snd e' = layer_members ?nl (fst e')"
      by (metis levelBuckets_entry prod.collapse)
    show "set (snd e') \<inter> set (layer_members ?nl L) = {}"
      unfolding s using b by (auto simp: in_level_members [OF d])
  qed
  show "(\<Union>e \<in> set (sort_key fst (levelMap ns ds)). set (snd e)) = node_id ` set ns"
  proof (intro set_eqI iffI)
    fix i assume "i \<in> (\<Union>e \<in> set (sort_key fst (levelMap ns ds)). set (snd e))"
    then obtain e where e: "e \<in> set (levelBuckets ?nl)" and i: "i \<in> set (snd e)"
      by (auto simp: levelMap_buckets)
    from e have "snd e = layer_members ?nl (fst e)" by (metis levelBuckets_entry prod.collapse)
    with i show "i \<in> node_id ` set ns" by (simp add: in_level_members [OF d])
  next
    fix i assume i: "i \<in> node_id ` set ns"
    let ?L = "level_of ds i"
    from i have m: "i \<in> set (layer_members ?nl ?L)" by (simp add: in_level_members [OF d])
    then have "layer_members ?nl ?L \<noteq> []" by auto
    then have "(?L, layer_members ?nl ?L) \<in> set (sort_key fst (levelMap ns ds))"
      by (simp add: levelMap_buckets levelBuckets_entry)
    with m show "i \<in> (\<Union>e \<in> set (sort_key fst (levelMap ns ds)). set (snd e))" by force
  qed
qed

lemma place_ring_rule:
  "place_ring b s pos e = place_all (ring_rule b s e) (snd e) pos"
proof (cases "fst e = 0 \<or> fst e = MAX_SAFE_INTEGER")
  case True
  then have "ring_rule b s e = (\<lambda>index i. (real index * 40, real index * 40))"
    by (intro ext) (simp only: ring_rule_def if_True)
  with True show ?thesis by (simp only: place_ring_def Let_def if_True)
next
  case False
  then have "ring_rule b s e =
      (\<lambda>index i. (cos ((2 * pi) / real (length (snd e)) * real index - pi / 2)
                        * (b + s * (real (fst e) - 1)),
                      sin ((2 * pi) / real (length (snd e)) * real index - pi / 2)
                        * (b + s * (real (fst e) - 1))))"
    by (intro ext) (simp only: ring_rule_def ring_point_def if_False)
  with False show ?thesis by (simp only: place_ring_def Let_def if_False)
qed

lemma level_zero_members:
  assumes hub: "hubId (buildMetrics g) = Some h" and d: "distinct (map node_id ns)"
    and hn: "h \<in> node_id ` set ns"
  shows "layer_members (node_levels ns (distances (buildMetrics g))) 0 = [h]"
proof -
  let ?ds = "distances (buildMetrics g)"
  let ?M = "layer_members (node_levels ns ?ds) 0"
  have z: "\<And>i. level_of ?ds i = 0 \<longleftrightarrow> i = h"
  proof -
    fix i
    have "level_of ?ds i = 0 \<longleftrightarrow> map_of ?ds i = Some 0"
      by (auto simp: level_of_def MAX_SAFE_INTEGER_def split: option.splits)
    then show "level_of ?ds i = 0 \<longleftrightarrow> i = h" using hub by (simp add: hub_distance_zero)
  qed
  have s: "set ?M = {h}"
    using hn by (auto simp: in_level_members [OF d] z)
  have dm: "distinct ?M" using d by (rule sorted_levels_facts(3))
  have "length ?M = 1" using distinct_card [OF dm] s by simp
  then obtain a where "?M = [a]" by (cases ?M) auto
  with s show ?thesis by simp
qed

lemma focused_rings:
  assumes hub: "hubId (buildMetrics g) = Some h" and d: "distinct (map node_id ns)"
  shows "fst ` set (foldl (place_ring b s) [] (sort_key fst (levelMap ns (distances (buildMetrics g)))))
           = node_id ` set ns"
    and "j < length (layer_members (node_levels ns (distances (buildMetrics g))) L) \<Longrightarrow>
         map_of (foldl (place_ring b s) [] (sort_key fst (levelMap ns (distances (buildMetrics g)))))
           (layer_members (node_levels ns (distances (buildMetrics g))) L ! j) =
         Some (ring_rule b s (L, layer_members (node_levels ns (distances (buildMetrics g))) L) j
                 (layer_members (node_levels ns (distances (buildMetrics g))) L ! j))"
    and "h \<in> node_id ` set ns \<Longrightarrow>
         map_of (foldl (place_ring b s) [] (sort_key fst (levelMap ns (distances (buildMetrics g))))) h
           = Some (0, 0)"
proof -
  let ?ds = "distances (buildMetrics g)"
  let ?S = "sort_key fst (levelMap ns ?ds)"
  let ?rings = "foldl (place_ring b s) [] ?S"
  let ?M = "\<lambda>L. layer_members (node_levels ns ?ds) L"
  note facts = sorted_levels_facts [OF d, of ?ds]
  show keys: "fst ` set ?rings = node_id ` set ns"
    using fold_place_keys [of "place_ring b s" "ring_rule b s" "[]" ?S, OF place_ring_rule]
      facts(5) by simp
  have nth: "\<And>L j. j < length (?M L) \<Longrightarrow>
      map_of ?rings (?M L ! j) = Some (ring_rule b s (L, ?M L) j (?M L ! j))"
  proof -
    fix L j assume j: "j < length (?M L)"
    then have ne: "?M L \<noteq> []" by auto
    show "map_of ?rings (?M L ! j) = Some (ring_rule b s (L, ?M L) j (?M L ! j))"
      by (rule fold_place_nth [of "place_ring b s" "ring_rule b s", OF place_ring_rule
            facts(1) facts(2) [OF ne] facts(3) facts(4) j])
  qed
  then show "j < length (?M L) \<Longrightarrow>
      map_of ?rings (?M L ! j) = Some (ring_rule b s (L, ?M L) j (?M L ! j))" .
  show "map_of ?rings h = Some (0, 0)" if hn: "h \<in> node_id ` set ns"
  proof -
    have M0: "?M 0 = [h]" by (rule level_zero_members [OF hub d hn])
    have "map_of ?rings (?M 0 ! 0) = Some (ring_rule b s (0, ?M 0) 0 (?M 0 ! 0))"
      by (rule nth) (simp add: M0)
    then show ?thesis by (simp add: M0 ring_rule_def)
  qed
qed

text \<open>
  The revision in public/app.js, for a snapshot with a hub and distinct node ids: the hub
  is at the origin, and the \<open>j\<close>-th node of the group of a finite level \<open>L \<ge> 1\<close> is
  on the ring of radius \<open>baseRadius + radiusStep * (L - 1)\<close>, at the \<open>j\<close>-th of the
  group's evenly spaced angles, starting at -90 degrees.
\<close>

theorem focused_layout_rings:
  assumes hub: "hubId (buildMetrics g) = Some h" and d: "distinct (map node_id (nodes g))"
  shows "position_of (computeFocusedLayout w ht (nodes g) (buildMetrics g)) h = (0, 0)
       \<and> (\<forall>L j. 1 \<le> L \<longrightarrow> L < MAX_SAFE_INTEGER \<longrightarrow>
             j < length (layer_members (node_levels (nodes g) (distances (buildMetrics g))) L) \<longrightarrow>
             position_of (computeFocusedLayout w ht (nodes g) (buildMetrics g))
               (layer_members (node_levels (nodes g) (distances (buildMetrics g))) L ! j) =
             ring_point (canvas_min w ht * 0.22 + canvas_min w ht * 0.18 * (real L - 1))
               (length (layer_members (node_levels (nodes g) (distances (buildMetrics g))) L)) j)"
proof -
  define b where "b = canvas_min w ht * 0.22"
  define s where "s = canvas_min w ht * 0.18"
  let ?m = "buildMetrics g"
  let ?ns = "nodes g"
  let ?ds = "distances ?m"
  let ?rings = "foldl (place_ring b s) [] (sort_key fst (levelMap ?ns ?ds))"
  let ?P = "computeFocusedLayout w ht ?ns ?m"
  let ?M = "\<lambda>L. layer_members (node_levels ?ns ?ds) L"
  note keys = focused_rings(1) [OF hub d, of b s]
  note nth = focused_rings(2) [OF hub d, of _ _ b s]
  note hub0 = focused_rings(3) [OF hub d, of b s]
  have P: "?P = (if ?ns = [] then []
                 else if h \<noteq> [] \<and> \<not> map_has h ?rings then map_set h (0, 0) ?rings else ?rings)"
    unfolding computeFocusedLayout_def Let_def b_def s_def hub by simp
  have hubpos: "position_of ?P h = (0, 0)"
  proof (cases "h \<in> node_id ` set ?ns")
    case True
    then have ne: "?ns \<noteq> []" by auto
    from True have has: "map_has h ?rings" by (simp add: map_has_keys keys)
    from hub0 [OF True] show ?thesis using P ne has by (simp add: position_of_def)
  next
    case False
    then have nohas: "\<not> map_has h ?rings" by (simp add: map_has_keys keys)
    then have none: "map_of ?rings h = None" unfolding map_has_def by blast
    show ?thesis
      using P nohas none by (auto simp: position_of_def map_of_map_set)
  qed
  have ring: "\<forall>L j. 1 \<le> L \<longrightarrow> L < MAX_SAFE_INTEGER \<longrightarrow> j < length (?M L) \<longrightarrow>
      position_of ?P (?M L ! j) = ring_point (b + s * (real L - 1)) (length (?M L)) j"
  proof (intro allI impI)
    fix L j assume L1: "1 \<le> L" and L2: "L < MAX_SAFE_INTEGER" and j: "j < length (?M L)"
    let ?i = "?M L ! j"
    have "?i \<in> set (?M L)" using j by simp
    then have i: "?i \<in> node_id ` set ?ns" by (simp add: in_level_members [OF d])
    then have ne: "?ns \<noteq> []" by auto
    have r: "map_of ?rings ?i = Some (ring_point (b + s * (real L - 1)) (length (?M L)) j)"
      using nth [OF j] L1 L2 by (simp add: ring_rule_def)
    have "map_of ?P ?i = map_of ?rings ?i"
    proof (cases "h \<noteq> [] \<and> \<not> map_has h ?rings")
      case True
      then have "h \<noteq> ?i" using i by (auto simp: map_has_keys keys)
      with True P ne show ?thesis by (simp add: map_of_map_set)
    next
      case False
      with P ne show ?thesis by auto
    qed
    with r show "position_of ?P ?i = ring_point (b + s * (real L - 1)) (length (?M L)) j"
      by (simp add: position_of_def)
  qed
  from hubpos ring show ?thesis unfolding b_def s_def by blast
qed

lemma place_ring_jitter_rule:
  "place_ring_jitter random b s n st e =
     (place_all (jitter_rule random b s n (snd st) e) (snd e) (fst st), snd st + length (snd e))"
proof -
  have "jitter_rule random b s n (snd st) e =
     (\<lambda>index i.
        (cos ((2 * pi) / real (length (snd e)) * real index - pi / 2)
           * (b + s * (real (if fst e = MAX_SAFE_INTEGER then n else fst e) - 1))
           + (random (snd st + index) - 0.5) * 18,
         sin ((2 * pi) / real (length (snd e)) * real index - pi / 2)
           * (b + s * (real (if fst e = MAX_SAFE_INTEGER then n else fst e) - 1))
           + (random (snd st + index) - 0.5) * 18))"
    by (intro ext) (simp only: jitter_rule_def ring_point_def jitter_def fst_conv snd_conv)
  then show ?thesis by (simp only: place_ring_jitter_def Let_def)
qed

lemma fold_jitter_untouched:
  "\<forall>e \<in> set es. i \<notin> set (snd e) \<Longrightarrow>
   map_of (fst (foldl (place_ring_jitter random b s n) st es)) i = map_of (fst st) i"
  by (induction es arbitrary: st) (simp_all add: place_ring_jitter_rule map_of_place_all_other)

lemma fold_jitter_keys:
  "fst ` set (fst (foldl (place_ring_jitter random b s n) st es)) =
     (\<Union>e \<in> set es. set (snd e)) \<union> fst ` set (fst st)"
  by (induction es arbitrary: st) (auto simp: place_ring_jitter_rule keys_place_all)

lemma fold_jitter_head:
  assumes keys: "distinct (map fst ((L, m) # post))" and dm: "distinct m"
    and disj: "\<forall>e' \<in> set post. set (snd e') \<inter> set m = {}" and j: "j < length m"
  shows "map_of (fst (foldl (place_ring_jitter random b s n) st ((L, m) # post))) (m ! j) =
           Some (jitter_rule random b s n (snd st) (L, m) j (m ! j))"
proof -
  have im: "m ! j \<in> set m" using j by simp
  have "\<forall>e' \<in> set post. m ! j \<notin> set (snd e')" using disj im by blast
  then have "map_of (fst (foldl (place_ring_jitter random b s n) st ((L, m) # post))) (m ! j) =
        map_of (fst (place_ring_jitter random b s n st (L, m))) (m ! j)"
    by (simp add: fold_jitter_untouched)
  then show ?thesis
    using map_of_place_all_nth [OF dm j] by (simp add: place_ring_jitter_rule)
qed

lemma fold_jitter_nth:
  assumes keys: "distinct (map fst es)" and e: "(L, m) \<in> set es" and dm: "distinct m"
    and disj: "\<forall>e' \<in> set es. fst e' \<noteq> L \<longrightarrow> set (snd e') \<inter> set m = {}"
    and j: "j < length m"
  shows "\<exists>k. map_of (fst (foldl (place_ring_jitter random b s n) st es)) (m ! j) =
           Some (jitter_rule random b s n k (L, m) j (m ! j))"
proof -
  from e obtain pre post where es: "es = pre @ (L, m) # post"
    by (meson split_list)
  let ?st1 = "foldl (place_ring_jitter random b s n) st pre"
  have k2: "distinct (map fst ((L, m) # post))" using keys unfolding es by simp
  have d2: "\<forall>e' \<in> set post. set (snd e') \<inter> set m = {}"
  proof
    fix e' assume p: "e' \<in> set post"
    then have "fst e' \<noteq> L" using keys unfolding es by (auto simp: rev_image_eqI)
    moreover have "e' \<in> set es" using p unfolding es by simp
    ultimately show "set (snd e') \<inter> set m = {}" using disj by blast
  qed
  have "map_of (fst (foldl (place_ring_jitter random b s n) ?st1 ((L, m) # post))) (m ! j) =
           Some (jitter_rule random b s n (snd ?st1) (L, m) j (m ! j))"
    by (rule fold_jitter_head [OF k2 dm d2 j])
  then show ?thesis unfolding es by auto
qed

lemma sorted_head_zero:
  assumes s: "sorted (map fst xs)" and d: "distinct (map fst xs)" and e: "((0::nat), m) \<in> set xs"
  shows "\<exists>post. xs = (0, m) # post"
proof (cases xs)
  case Nil
  with e show ?thesis by simp
next
  case (Cons x post)
  have "fst x \<le> 0"
  proof (cases "x = (0, m)")
    case True
    then show ?thesis by simp
  next
    case False
    with e Cons have "(0, m) \<in> set post" by simp
    moreover have "\<forall>y \<in> set post. fst x \<le> fst y" using s Cons by simp
    ultimately show ?thesis by force
  qed
  then have "fst x = 0" by simp
  have "x \<in> set xs" using Cons by simp
  with d e \<open>fst x = 0\<close> have "snd x = m"
    by (metis eq_key_imp_eq_value prod.collapse)
  with \<open>fst x = 0\<close> Cons show ?thesis by (metis prod.collapse)
qed

lemma canvas_min_pos: "0 < canvas_min w ht"
  by (simp add: canvas_min_def)

lemma ring_point_up: "ring_point r (Suc 0) 0 = (0, - r)"
  by (simp add: ring_point_def)

text \<open>
  The revision bundled in server.js, for a snapshot with distinct node ids whose hub is
  among them: the hub is on the ring of index 0, of radius \<open>baseRadius - radiusStep\<close>,
  at -90 degrees, moved by the first jitter, which is never the origin; the \<open>j\<close>-th
  node of the group of a finite level \<open>L \<ge> 1\<close> is at the point of the ring of radius
  \<open>baseRadius + radiusStep * (L - 1)\<close>, moved on both axes by one jitter.
\<close>

theorem focused_layout_jitter:
  assumes hub: "hubId (buildMetrics g) = Some h" and d: "distinct (map node_id (nodes g))"
    and hn: "h \<in> node_id ` set (nodes g)"
  shows "position_of (computeFocusedLayout_jitter random w ht (nodes g) (buildMetrics g)) h =
           (jitter random 0,
            - (canvas_min w ht * 0.24 - canvas_min w ht * 0.2) + jitter random 0)
       \<and> position_of (computeFocusedLayout_jitter random w ht (nodes g) (buildMetrics g)) h \<noteq> (0, 0)
       \<and> (\<forall>L j. 1 \<le> L \<longrightarrow> L < MAX_SAFE_INTEGER \<longrightarrow>
             j < length (layer_members (node_levels (nodes g) (distances (buildMetrics g))) L) \<longrightarrow>
             (\<exists>k. position_of (computeFocusedLayout_jitter random w ht (nodes g) (buildMetrics g))
                    (layer_members (node_levels (nodes g) (distances (buildMetrics g))) L ! j) =
                  (fst (ring_point (canvas_min w ht * 0.24 + canvas_min w ht * 0.2 * (real L - 1))
                         (length (layer_members (node_levels (nodes g)
                                    (distances (buildMetrics g))) L)) j) + jitter random k,
                   snd (ring_point (canvas_min w ht * 0.24 + canvas_min w ht * 0.2 * (real L - 1))
                         (length (layer_members (node_levels (nodes g)
                                    (distances (buildMetrics g))) L)) j) + jitter random k)))"
proof -
  define b where "b = canvas_min w ht * 0.24"
  define s where "s = canvas_min w ht * 0.2"
  let ?m = "buildMetrics g"
  let ?ns = "nodes g"
  let ?ds = "distances ?m"
  let ?S = "sort_key fst (levelMap ?ns ?ds)"
  define n where "n = length ?S"
  let ?rings = "fst (foldl (place_ring_jitter random b s n) ([], 0) ?S)"
  let ?P = "computeFocusedLayout_jitter random w ht ?ns ?m"
  let ?M = "\<lambda>L. layer_members (node_levels ?ns ?ds) L"
  note facts = sorted_levels_facts [OF d, of ?ds]
  from hn have ne: "?ns \<noteq> []" by auto
  have keys: "fst ` set ?rings = node_id ` set ?ns"
    using fold_jitter_keys [of random b s n "([], 0)" ?S] facts(5) by simp
  have has: "map_has h ?rings" using hn by (simp add: map_has_keys keys)
  have P: "?P = ?rings"
    unfolding computeFocusedLayout_jitter_def Let_def b_def [symmetric] s_def [symmetric]
      n_def [symmetric] hub
    using ne has by simp
  have M0: "?M 0 = [h]" by (rule level_zero_members [OF hub d hn])
  have e0: "(0, [h]) \<in> set ?S" using facts(2) [of 0] M0 by simp
  have "sorted (map fst ?S)" by (rule sorted_sort_key)
  from sorted_head_zero [OF this facts(1) e0] obtain post where S: "?S = (0, [h]) # post" ..
  have disj: "\<forall>e' \<in> set post. set (snd e') \<inter> set [h] = {}"
  proof
    fix e' assume p: "e' \<in> set post"
    then have "fst e' \<noteq> 0" using facts(1) unfolding S by (auto simp: rev_image_eqI)
    moreover have "e' \<in> set ?S" using p unfolding S by simp
    ultimately show "set (snd e') \<inter> set [h] = {}" using facts(4) [of 0] M0 by simp
  qed
  have k1: "distinct (map fst ((0, [h]) # post))" using facts(1) unfolding S .
  have dh: "distinct [h]" by simp
  have j0: "0 < length [h]" by simp
  from fold_jitter_head [OF k1 dh disj j0, of random b s n "([], 0)"]
  have "map_of ?rings h = Some (jitter_rule random b s n 0 (0, [h]) 0 h)"
    unfolding S [symmetric] by simp
  also have "jitter_rule random b s n 0 (0, [h]) 0 h =
               (jitter random 0, - (b - s) + jitter random 0)"
    using ring_point_up [of "b - s"] by (simp add: jitter_rule_def MAX_SAFE_INTEGER_def)
  finally have hp: "position_of ?P h = (jitter random 0, - (b - s) + jitter random 0)"
    by (simp add: P position_of_def)
  have "b - s = canvas_min w ht * 0.04" by (simp add: b_def s_def)
  then have "0 < b - s" using canvas_min_pos [of w ht] by simp
  then have "(jitter random 0, - (b - s) + jitter random 0) \<noteq> (0, 0)" by auto
  with hp have hne: "position_of ?P h \<noteq> (0, 0)" by simp
  have ring: "\<forall>L j. 1 \<le> L \<longrightarrow> L < MAX_SAFE_INTEGER \<longrightarrow> j < length (?M L) \<longrightarrow>
      (\<exists>k. position_of ?P (?M L ! j) =
         (fst (ring_point (b + s * (real L - 1)) (length (?M L)) j) + jitter random k,
          snd (ring_point (b + s * (real L - 1)) (length (?M L)) j) + jitter random k))"
  proof (intro allI impI)
    fix L j assume L1: "1 \<le> L" and L2: "L < MAX_SAFE_INTEGER" and j: "j < length (?M L)"
    then have neL: "?M L \<noteq> []" by auto
    from fold_jitter_nth [OF facts(1) facts(2) [OF neL] facts(3) facts(4) j,
                          of random b s n "([], 0)"]
    obtain k where "map_of ?rings (?M L ! j) =
        Some (jitter_rule random b s n k (L, ?M L) j (?M L ! j))" ..
    then have "position_of ?P (?M L ! j) =
         (fst (ring_point (b + s * (real L - 1)) (length (?M L)) j) + jitter random (k + j),
          snd (ring_point (b + s * (real L - 1)) (length (?M L)) j) + jitter random (k + j))"
      using L2 by (simp add: P position_of_def jitter_rule_def)
    then show "\<exists>k. position_of ?P (?M L ! j) =
         (fst (ring_point (b + s * (real L - 1)) (length (?M L)) j) + jitter random k,
          snd (ring_point (b + s * (real L - 1)) (length (?M L)) j) + jitter random k)" ..
  qed
  from hp hne ring show ?thesis unfolding b_def s_def by blast
qed

text \<open>The example graph on the default canvas: the four neighbours of the hub are 90 degrees apart.\<close>

lemma example_graph_distances:
  "distances (buildMetrics example_graph) =
     [(''h'', 0), (''a'', 1), (''b'', 1), (''c'', 1), (''d'', 1), (''e'', 2)]"
  by code_simp

lemma example_graph_level_1:
  "layer_members (node_levels (nodes example_graph) (distances (buildMetrics example_graph))) 1
     = [''a'', ''b'', ''c'', ''d'']"
  unfolding example_graph_distances
  by (simp add: layer_members_def node_levels_def level_of_def example_graph_def
        MAX_SAFE_INTEGER_def)

theorem focused_layout_rings_witness:
  "position_of (computeFocusedLayout 0 0 (nodes example_graph) (buildMetrics example_graph)) ''h''
     = (0, 0)
   \<and> position_of (computeFocusedLayout 0 0 (nodes example_graph) (buildMetrics example_graph)) ''a''
     = (0, - 105.6)
   \<and> position_of (computeFocusedLayout 0 0 (nodes example_graph) (buildMetrics example_graph)) ''b''
     = (105.6, 0)
   \<and> position_of (computeFocusedLayout 0 0 (nodes example_graph) (buildMetrics example_graph)) ''c''
     = (0, 105.6)
   \<and> position_of (computeFocusedLayout 0 0 (nodes example_graph) (buildMetrics example_graph)) ''d''
     = (- 105.6, 0)"
proof -
  let ?P = "computeFocusedLayout 0 0 (nodes example_graph) (buildMetrics example_graph)"
  let ?M = "layer_members (node_levels (nodes example_graph) (distances (buildMetrics example_graph))) 1"
  have h1: "hubId (buildMetrics example_graph) = Some ''h''" by code_simp
  have h2: "distinct (map node_id (nodes example_graph))" by (simp add: example_graph_def)
  have c: "canvas_min 0 0 = 480" by (simp add: canvas_min_def)
  have one: "(1::nat) \<le> 1" and lt: "(1::nat) < MAX_SAFE_INTEGER"
    by (simp_all add: MAX_SAFE_INTEGER_def)
  have four: "Suc (Suc (Suc (Suc 0))) = 4" by simp
  from focused_layout_rings [OF h1 h2, of 0 0]
  have hub: "position_of ?P ''h'' = (0, 0)"
    and ring: "\<And>j. j < length ?M \<Longrightarrow>
       position_of ?P (?M ! j) = ring_point (canvas_min 0 0 * 0.22 + canvas_min 0 0 * 0.18 * (real 1 - 1))
                                   (length ?M) j"
    using one lt by blast+
  have r0: "ring_point (528 / 5) 4 0 = (0, - (528 / 5))"
    by (simp add: ring_point_def)
  have r1: "ring_point (528 / 5) 4 1 = (528 / 5, 0)"
    by (simp add: ring_point_def)
  have "2 * pi / 4 * 2 - pi / 2 = pi / 2" by simp
  then have r2: "ring_point (528 / 5) 4 2 = (0, 528 / 5)"
    by (simp add: ring_point_def)
  have "2 * pi / 4 * 3 - pi / 2 = pi" by simp
  then have r3: "ring_point (528 / 5) 4 3 = (- (528 / 5), 0)"
    by (simp add: ring_point_def)
  have ring': "\<And>j. j < 4 \<Longrightarrow>
       position_of ?P ([''a'', ''b'', ''c'', ''d''] ! j) = ring_point (528 / 5) 4 j"
    using ring unfolding example_graph_level_1 c by (simp add: four)
  have a: "position_of ?P ''a'' = (0, - 105.6)"
    using ring' [of 0] r0 by simp
  have b: "position_of ?P ''b'' = (105.6, 0)"
    using ring' [of 1] r1 by simp
  have cc: "position_of ?P ''c'' = (0, 105.6)"
    using ring' [of 2] r2 by simp
  have d: "position_of ?P ''d'' = (- 105.6, 0)"
    using ring' [of 3] r3 by simp
  from hub a b cc d show ?thesis by blast
qed

theorem focused_layout_jitter_witness:
  "position_of (computeFocusedLayout_jitter (\<lambda>k. 1 / 2) 0 0 (nodes example_graph)
                  (buildMetrics example_graph)) ''h'' = (0, - 19.2)
   \<and> position_of (computeFocusedLayout_jitter (\<lambda>k. 1 / 2) 0 0 (nodes example_graph)
                  (buildMetrics example_graph)) ''h'' \<noteq> (0, 0)
   \<and> position_of (computeFocusedLayout_jitter (\<lambda>k. 1 / 2) 0 0 (nodes example_graph)
                  (buildMetrics example_graph)) ''b'' = (115.2, 0)"
proof -
  let ?P = "computeFocusedLayout_jitter (\<lambda>k. 1 / 2) 0 0 (nodes example_graph) (buildMetrics example_graph)"
  let ?M = "layer_members (node_levels (nodes example_graph) (distances (buildMetrics example_graph))) 1"
  have h1: "hubId (buildMetrics example_graph) = Some ''h''" by code_simp
  have h2: "distinct (map node_id (nodes example_graph))" by (simp add: example_graph_def)
  have h3: "''h'' \<in> node_id ` set (nodes example_graph)" by (simp add: example_graph_def)
  have c: "canvas_min 0 0 = 480" by (simp add: canvas_min_def)
  have j0: "\<And>k. jitter (\<lambda>k. 1 / 2) k = 0" by (simp add: jitter_def)
  have one: "(1::nat) \<le> 1" and lt: "(1::nat) < MAX_SAFE_INTEGER"
    by (simp_all add: MAX_SAFE_INTEGER_def)
  have four: "Suc (Suc (Suc (Suc 0))) = 4" by simp
  from focused_layout_jitter [OF h1 h2 h3, of "\<lambda>k. 1 / 2" 0 0]
  have hub: "position_of ?P ''h'' =
           (jitter (\<lambda>k. 1 / 2) 0, - (canvas_min 0 0 * 0.24 - canvas_min 0 0 * 0.2) + jitter (\<lambda>k. 1 / 2) 0)"
    and off: "position_of ?P ''h'' \<noteq> (0, 0)"
    and ring: "\<And>j. j < length ?M \<Longrightarrow>
       \<exists>k. position_of ?P (?M ! j) =
         (fst (ring_point (canvas_min 0 0 * 0.24 + canvas_min 0 0 * 0.2 * (real 1 - 1)) (length ?M) j)
            + jitter (\<lambda>k. 1 / 2) k,
          snd (ring_point (canvas_min 0 0 * 0.24 + canvas_min 0 0 * 0.2 * (real 1 - 1)) (length ?M) j)
            + jitter (\<lambda>k. 1 / 2) k)"
    using one lt by blast+
  have r1: "ring_point (576 / 5) 4 1 = (576 / 5, 0)"
    by (simp add: ring_point_def)
  have a: "position_of ?P ''h'' = (0, - 19.2)" using hub by (simp add: j0 c)
  have ring': "\<And>j. j < 4 \<Longrightarrow>
       position_of ?P ([''a'', ''b'', ''c'', ''d''] ! j) = ring_point (576 / 5) 4 j"
    using ring unfolding example_graph_level_1 c j0 by (simp add: four)
  have b: "position_of ?P ''b'' = (115.2, 0)"
    using ring' [of 1] r1 by simp
  from a off b show ?thesis by blast
qed

end
